theory Spec2Isabelle
  imports Complex_Main "HOL-Library.AList" "HOL-Library.Multiset"
begin

section \<open>Numbers: Go's float64\<close>

text \<open>
  A float64 is modelled by its value: not-a-number, the two infinities, or a real number.
  Comparisons follow IEEE 754 as Go implements them: every ordered comparison with NaN is
  false. Rounding of decimal literals to binary64 is not part of the model; it is monotone,
  so a comparison of two values agrees with Go's unless both round to the same binary64.
\<close>

datatype float64 = NaN | NInf | Fin real | PInf

fun f64_le :: "float64 \<Rightarrow> float64 \<Rightarrow> bool" where
  "f64_le NaN y = False"
| "f64_le x NaN = False"
| "f64_le NInf y = True"
| "f64_le x PInf = True"
| "f64_le (Fin a) (Fin b) = (a \<le> b)"
| "f64_le x y = False"

fun f64_lt :: "float64 \<Rightarrow> float64 \<Rightarrow> bool" where
  "f64_lt NaN y = False"
| "f64_lt x NaN = False"
| "f64_lt (Fin a) (Fin b) = (a < b)"
| "f64_lt NInf NInf = False"
| "f64_lt PInf PInf = False"
| "f64_lt NInf y = True"
| "f64_lt x PInf = True"
| "f64_lt x y = False"

definition f64_ge :: "float64 \<Rightarrow> float64 \<Rightarrow> bool" where
  "f64_ge x y = f64_le y x"

definition f64_gt :: "float64 \<Rightarrow> float64 \<Rightarrow> bool" where
  "f64_gt x y = f64_lt y x"

section \<open>Strings: the functions of package strings that the program calls\<close>

text \<open>\<open>strings.HasPrefix(s, p)\<close>.\<close>

fun HasPrefix :: "string \<Rightarrow> string \<Rightarrow> bool" where
  "HasPrefix s [] = True"
| "HasPrefix [] (p # ps) = False"
| "HasPrefix (c # cs) (p # ps) = (c = p \<and> HasPrefix cs ps)"

text \<open>\<open>strings.Contains(s, sub)\<close>: some suffix of \<open>s\<close> starts with \<open>sub\<close>.\<close>

fun Contains :: "string \<Rightarrow> string \<Rightarrow> bool" where
  "Contains [] sub = (sub = [])"
| "Contains (c # cs) sub = (HasPrefix (c # cs) sub \<or> Contains cs sub)"

text \<open>
  \<open>strings.Split(s, sep)\<close> for a non-empty separator: the pieces of \<open>s\<close> between the
  occurrences of \<open>sep\<close>, found from the left and not overlapping. \<open>split_go sep acc s\<close>
  scans \<open>s\<close> with the current piece \<open>acc\<close> held in reverse. (With an empty separator Go
  splits between UTF-8 sequences; the program never does that, and the model then returns
  the whole string.)
\<close>

function split_go :: "string \<Rightarrow> string \<Rightarrow> string \<Rightarrow> string list" where
  "split_go sep acc [] = [rev acc]"
| "split_go sep acc (c # cs) =
     (if sep \<noteq> [] \<and> HasPrefix (c # cs) sep
      then rev acc # split_go sep [] (drop (length sep) (c # cs))
      else split_go sep (c # acc) cs)"
  by pat_completeness auto
termination
  by (relation "measure (\<lambda>(sep, acc, s). length s)") (auto simp: neq_Nil_conv)

definition Split :: "string \<Rightarrow> string \<Rightarrow> string list" where
  "Split s sep = split_go sep [] s"

section \<open>Panics\<close>

text \<open>
  Indexing a slice out of range panics in Go. \<open>index_go xs i\<close> is \<open>xs[i]\<close> with the panic
  as a value.
\<close>

datatype panic = IndexOutOfRange nat nat

definition index_go :: "'a list \<Rightarrow> nat \<Rightarrow> panic + 'a" where
  "index_go xs i = (if i < length xs then Inr (xs ! i) else Inl (IndexOutOfRange i (length xs)))"

section \<open>The data of the two programs\<close>

text \<open>
  Program A (\<open>Get_Address.go\<close>). A \<open>WalletItem\<close> is one element of the response; only the
  path \<open>Result.Data.Json\<close> of its nested structs holds data, a list of entries with an
  address and labels. A \<open>WalletOutput\<close> is a record of the file the program writes.
\<close>

record WalletEntry =
  Address :: string
  Labels :: "string list"

record WalletItem =
  Json :: "WalletEntry list"

record WalletOutput =
  Address :: string
  Label :: string

text \<open>
  Program B (\<open>execute_Address.go\<close>). \<open>jvalue\<close> is what \<open>json.Unmarshal\<close> stores in a field
  of type \<open>interface{}\<close>. \<open>AddressInfo\<close> is \<open>AddrData.PageProps.AddressInfo\<close>.
\<close>

datatype jvalue =
    JNull
  | JBool bool
  | JNumber float64
  | JString string
  | JArray "jvalue list"
  | JObject "(string \<times> jvalue) list"

record AddressInfo =
  TotalProfit :: jvalue
  SolBalance :: jvalue
  WinRate :: jvalue
  TwitterName :: string

record AddressItem =
  Address :: string
  Label :: string

record Result =
  Address :: string
  Label :: string

section \<open>The scanner: \<open>fmt.Sscanf(s, "%f", &x)\<close>\<close>

text \<open>
  The program reads numbers out of strings with \<open>fmt.Sscanf\<close> and the verb \<open>%f\<close>. The scanner
  belongs to Go's library, so the program's functions take it as a parameter
  \<open>scan :: string \<Rightarrow> float64 option\<close> (\<open>None\<close>: Sscanf returned an error and left the variable
  alone), and the theorems hold for every scanner.

  \<open>Sscanf_f\<close> is a model of the library's scanner for use at concrete inputs. It follows
  \<open>fmt\<close>'s \<open>SkipSpace\<close>, \<open>floatToken\<close> and \<open>convertFloat\<close>: blanks are skipped, a newline or
  the end of the input is an error, then \<open>nan\<close>, an optional sign, \<open>inf\<close>, or decimal digits
  with an optional fraction and an optional exponent (\<open>e\<close>: power of ten, \<open>p\<close>: power of two)
  are read, and what follows the token is ignored. Hexadecimal mantissas and underscores
  between digits, which Go accepts, are reported as errors here; range errors and rounding
  are not modelled.
\<close>

type_synonym scanner = "string \<Rightarrow> float64 option"

definition is_blank :: "char \<Rightarrow> bool" where
  "is_blank c = (c = CHR '' '' \<or> c = CHR 0x09 \<or> c = CHR 0x0B \<or> c = CHR 0x0C \<or> c = CHR 0x0D)"

definition digit_of :: "char \<Rightarrow> nat option" where
  "digit_of c =
     (let n = (of_char c :: nat) in if 48 \<le> n \<and> n \<le> 57 then Some (n - 48) else None)"

definition is_digit :: "char \<Rightarrow> bool" where
  "is_digit c = (digit_of c \<noteq> None)"

fun digits_value :: "nat \<Rightarrow> string \<Rightarrow> nat" where
  "digits_value acc [] = acc"
| "digits_value acc (c # cs) = digits_value (10 * acc + (case digit_of c of None \<Rightarrow> 0 | Some d \<Rightarrow> d)) cs"

text \<open>\<open>accept_fold s w\<close>: \<open>s\<close> starts with the lower-case word \<open>w\<close> in either case.\<close>

fun accept_fold :: "string \<Rightarrow> (char \<times> char) list \<Rightarrow> bool" where
  "accept_fold s [] = True"
| "accept_fold [] (p # ps) = False"
| "accept_fold (c # cs) ((l, u) # ps) = ((c = l \<or> c = u) \<and> accept_fold cs ps)"

definition nan_word :: "(char \<times> char) list" where
  "nan_word = [(CHR ''n'', CHR ''N''), (CHR ''a'', CHR ''A''), (CHR ''n'', CHR ''N'')]"

definition inf_word :: "(char \<times> char) list" where
  "inf_word = [(CHR ''i'', CHR ''I''), (CHR ''n'', CHR ''N''), (CHR ''f'', CHR ''F'')]"

text \<open>The exponent part after the mantissa \<open>m\<close>: nothing, \<open>e\<close> or \<open>E\<close>, or \<open>p\<close>.\<close>

definition scan_exponent :: "real \<Rightarrow> string \<Rightarrow> float64 option" where
  "scan_exponent m s =
     (case s of
        [] \<Rightarrow> Some (Fin m)
      | c # cs \<Rightarrow>
          if c = CHR ''e'' \<or> c = CHR ''E'' \<or> c = CHR ''p'' \<or> c = CHR ''P'' then
            (let neg = (cs \<noteq> [] \<and> hd cs = CHR ''-'');
                 cs' = (if cs \<noteq> [] \<and> (hd cs = CHR ''-'' \<or> hd cs = CHR ''+'') then tl cs else cs);
                 ds = takeWhile is_digit cs';
                 r = dropWhile is_digit cs';
                 e = digits_value 0 ds;
                 b = (if c = CHR ''p'' then 2 else 10 :: real)
             in if ds = [] \<or> c = CHR ''P'' \<or> (r \<noteq> [] \<and> hd r = CHR ''_'')
                then None
                else Some (Fin (if neg then m / b ^ e else m * b ^ e)))
          else Some (Fin m))"

text \<open>The unsigned decimal number at the start of \<open>s\<close>, with the sign \<open>sg\<close> read before it.\<close>

definition scan_decimal :: "real \<Rightarrow> string \<Rightarrow> float64 option" where
  "scan_decimal sg s =
     (let ip = takeWhile is_digit s;
          r1 = dropWhile is_digit s;
          has_dot = (r1 \<noteq> [] \<and> hd r1 = CHR ''.'');
          fp = (if has_dot then takeWhile is_digit (tl r1) else []);
          r2 = (if has_dot then dropWhile is_digit (tl r1) else r1)
      in if ip = [] \<and> fp = [] then None
         else if r2 \<noteq> [] \<and> hd r2 = CHR ''_'' then None
         else if ip = ''0'' \<and> r1 \<noteq> [] \<and> (hd r1 = CHR ''x'' \<or> hd r1 = CHR ''X'') then None
         else scan_exponent
                (sg * (real (digits_value 0 ip) + real (digits_value 0 fp) / 10 ^ length fp)) r2)"

definition scan_token :: "string \<Rightarrow> float64 option" where
  "scan_token s =
     (if accept_fold s nan_word then Some NaN
      else case s of
        [] \<Rightarrow> None
      | c # cs \<Rightarrow>
          if c = CHR ''-'' then
            (if accept_fold cs inf_word then Some NInf else scan_decimal (- 1) cs)
          else if c = CHR ''+'' then
            (if accept_fold cs inf_word then Some PInf else scan_decimal 1 cs)
          else if accept_fold s inf_word then Some PInf
          else scan_decimal 1 s)"

definition Sscanf_f :: scanner where
  "Sscanf_f s = scan_token (dropWhile is_blank s)"

section \<open>Program B: deduplicateAndFilter\<close>

text \<open>
  \<open>uniqueAddresses\<close> is a Go map from address to record. It is modelled as an association
  list with distinct keys: \<open>map_of\<close> looks a key up and \<open>AList.update\<close> stores a value,
  replacing the entry of a key that is present and appending otherwise.

  \<open>winrate_of scan r\<close> is \<open>fmt.Sscanf(strings.Split(r.Label, "winrate:")[1], "%f", &w)\<close>:
  the index expression is evaluated first and panics when the split has a single piece.
\<close>

definition winrate_of :: "scanner \<Rightarrow> Result \<Rightarrow> panic + float64 option" where
  "winrate_of scan r =
     (case index_go (Split (Label r) ''winrate:'') 1 of
        Inl p \<Rightarrow> Inl p
      | Inr s \<Rightarrow> Inr (scan s))"

text \<open>
  One iteration of the first loop, on the record \<open>result\<close> and the map \<open>m\<close>. The two
  \<open>continue\<close> statements and the skipped update leave the map as it is. The lines the
  loop logs do not influence the result and are left out.
\<close>

definition dedup_step :: "scanner \<Rightarrow> Result \<Rightarrow> (string \<times> Result) list \<Rightarrow> panic + (string \<times> Result) list" where
  "dedup_step scan result m =
     (case winrate_of scan result of
        Inl p \<Rightarrow> Inl p
      | Inr None \<Rightarrow> Inr m
      | Inr (Some winrate) \<Rightarrow>
          if f64_le winrate (Fin 0.1) then Inr m
          else (case map_of m (Address result) of
                  Some existing \<Rightarrow>
                    (case winrate_of scan existing of
                       Inl p \<Rightarrow> Inl p
                     | Inr None \<Rightarrow> Inr m
                     | Inr (Some existingWinrate) \<Rightarrow>
                         if f64_gt winrate existingWinrate
                         then Inr (AList.update (Address result) result m)
                         else Inr m)
                | None \<Rightarrow> Inr (AList.update (Address result) result m)))"

fun dedup_loop :: "scanner \<Rightarrow> Result list \<Rightarrow> (string \<times> Result) list \<Rightarrow> panic + (string \<times> Result) list" where
  "dedup_loop scan [] m = Inr m"
| "dedup_loop scan (r # rs) m =
     (case dedup_step scan r m of
        Inl p \<Rightarrow> Inl p
      | Inr m' \<Rightarrow> dedup_loop scan rs m')"

text \<open>
  The second loop ranges over the map and appends its values. \<open>deduplicateAndFilter\<close>
  returns them in the order of first insertion. Go leaves the iteration order of a map
  unspecified, so \<open>deduplicateAndFilter_returns scan results out\<close> holds for every slice
  \<open>out\<close> that the function may return: any arrangement of the same values.
\<close>

definition deduplicateAndFilter :: "scanner \<Rightarrow> Result list \<Rightarrow> panic + Result list" where
  "deduplicateAndFilter scan results =
     (case dedup_loop scan results [] of
        Inl p \<Rightarrow> Inl p
      | Inr m \<Rightarrow> Inr (map snd m))"

definition deduplicateAndFilter_returns :: "scanner \<Rightarrow> Result list \<Rightarrow> Result list \<Rightarrow> bool" where
  "deduplicateAndFilter_returns scan results out =
     (case deduplicateAndFilter scan results of
        Inl p \<Rightarrow> False
      | Inr vs \<Rightarrow> mset out = mset vs)"

text \<open>
  \<open>eligible scan r w\<close>: the win-rate of \<open>r\<close> is read without panic or error as \<open>w\<close>, and
  \<open>w <= 0.1\<close> is false, so the loop does not skip \<open>r\<close>.
\<close>

definition eligible :: "scanner \<Rightarrow> Result \<Rightarrow> float64 \<Rightarrow> bool" where
  "eligible scan r w = (winrate_of scan r = Inr (Some w) \<and> \<not> f64_le w (Fin 0.1))"

text \<open>
  The invariant of the first loop, for the set \<open>S\<close> of records read so far: the keys are
  distinct; every stored record is filed under its own address, has been read and is
  eligible; and every eligible record read has a stored record for its address whose
  win-rate it does not exceed.
\<close>

definition dedup_inv :: "scanner \<Rightarrow> Result set \<Rightarrow> (string \<times> Result) list \<Rightarrow> bool" where
  "dedup_inv scan S m =
     (distinct (map fst m) \<and>
      (\<forall>a r. map_of m a = Some r \<longrightarrow> Address r = a \<and> r \<in> S \<and> (\<exists>w. eligible scan r w)) \<and>
      (\<forall>r \<in> S. \<forall>w. eligible scan r w \<longrightarrow>
         (\<exists>s ws. map_of m (Address r) = Some s \<and> eligible scan s ws \<and> \<not> f64_gt w ws)))"

section \<open>The outside world\<close>

text \<open>
  Errors of library calls carry their message. \<open>error\<close> has one constructor for each
  \<open>fmt.Errorf\<close> of the two programs, \<open>message\<close> one for each line they log or print, with
  the arguments of the format.
\<close>

type_synonym lib_error = string

datatype error =
    AccessFailed lib_error
  | JSONFailed lib_error
  | ReadFileFailed lib_error
  | ParseJSONFailed lib_error
  | ReadTXTFailed lib_error
  | UnsupportedFormat string
  | RequestFailed lib_error
  | ReadBodyFailed lib_error
  | ParseResponseFailed lib_error

datatype message =
    Qualified string float64 float64 float64 string
  | NotQualified string float64 float64 float64 string
  | FileFailed string error
  | AddressFailed string error
  | UpdateFailed string lib_error
  | SaveFailed string lib_error
  | FileUpdated string nat
  | DeleteFailed string lib_error
  | FileDeleted string
  | SaveTotalFailed lib_error
  | SaveTotalFileFailed lib_error
  | TotalUpdated nat
  | Usage
  | Processing string
  | FetchFailed string error
  | MarshalFailed string lib_error
  | WriteFailed string lib_error
  | Saved string

text \<open>
  What a run does to the outside, in order: lines logged and printed, browser sessions
  (the URL and the timeout in seconds), sleeps (in seconds) and HTTP requests.
\<close>

datatype event =
    Log message
  | Print message
  | Navigate string nat
  | Sleep nat
  | HttpGet string

datatype io_op = OpRead string | OpWrite string string | OpRemove string

datatype http_outcome = GetError lib_error | ReadError lib_error | Body string

text \<open>
  The environment holds everything the programs do not define: the answers of the web
  and of the file system, and the library functions whose result depends on more than
  the programs show. The web and the file system may answer differently each time, so
  their answers depend on the number of the call (\<open>tick\<close>). \<open>json.Unmarshal\<close> and
  \<open>json.MarshalIndent\<close> appear once for each type they are used at.
\<close>

record env =
  chromedp_Run :: "nat \<Rightarrow> string \<Rightarrow> nat \<Rightarrow> lib_error + string"
  Unmarshal_AddrData :: "string \<Rightarrow> lib_error + AddressInfo"
  Sscanf :: scanner
  Sprintf_f :: "nat \<Rightarrow> float64 \<Rightarrow> string"
  Unmarshal_items :: "string \<Rightarrow> lib_error + AddressItem list"
  MarshalIndent_items :: "AddressItem list \<Rightarrow> lib_error + string"
  MarshalIndent_results :: "Result list \<Rightarrow> lib_error + string"
  ScanLines :: "string \<Rightarrow> string list \<times> lib_error option"
  Fields :: "string \<Rightarrow> string list"
  io_error :: "nat \<Rightarrow> io_op \<Rightarrow> lib_error option"
  http_Get :: "nat \<Rightarrow> string \<Rightarrow> http_outcome"
  Unmarshal_wallet :: "string \<Rightarrow> lib_error + WalletItem list"
  MarshalIndent_outputs :: "WalletOutput list \<Rightarrow> lib_error + string"

text \<open>
  The state of the world: the files (path to content), the events so far, and the number
  of calls made to the web and the file system.
\<close>

record world =
  fs :: "string \<Rightarrow> string option"
  trace :: "event list"
  tick :: nat

definition emit :: "event \<Rightarrow> world \<Rightarrow> world" where
  "emit e w = w\<lparr>trace := trace w @ [e]\<rparr>"

definition next_tick :: "world \<Rightarrow> world" where
  "next_tick w = w\<lparr>tick := Suc (tick w)\<rparr>"

text \<open>
  \<open>ioutil.ReadFile\<close>, \<open>ioutil.WriteFile\<close> and \<open>os.Remove\<close>. A call fails when the
  environment says so, or when the file to read or remove does not exist. A failed call
  leaves the files as they are (what a failed write leaves behind in the file is not
  modelled; no property below speaks of it).
\<close>

definition ReadFile :: "env \<Rightarrow> string \<Rightarrow> world \<Rightarrow> (lib_error + string) \<times> world" where
  "ReadFile e path w =
     (case io_error e (tick w) (OpRead path) of
        Some err \<Rightarrow> (Inl err, next_tick w)
      | None \<Rightarrow>
          (case fs w path of
             None \<Rightarrow> (Inl ''no such file'', next_tick w)
           | Some content \<Rightarrow> (Inr content, next_tick w)))"

definition WriteFile :: "env \<Rightarrow> string \<Rightarrow> string \<Rightarrow> world \<Rightarrow> lib_error option \<times> world" where
  "WriteFile e path content w =
     (case io_error e (tick w) (OpWrite path content) of
        Some err \<Rightarrow> (Some err, next_tick w)
      | None \<Rightarrow> (None, next_tick (w\<lparr>fs := (fs w)(path \<mapsto> content)\<rparr>)))"

definition Remove :: "env \<Rightarrow> string \<Rightarrow> world \<Rightarrow> lib_error option \<times> world" where
  "Remove e path w =
     (case io_error e (tick w) (OpRemove path) of
        Some err \<Rightarrow> (Some err, next_tick w)
      | None \<Rightarrow>
          (case fs w path of
             None \<Rightarrow> (Some ''no such file'', next_tick w)
           | Some content \<Rightarrow> (None, next_tick (w\<lparr>fs := (fs w)(path := None)\<rparr>))))"

text \<open>
  \<open>filepath.Ext\<close>: the suffix from the last dot of the last element of the path, empty
  when that element has no dot. \<open>ext_scan\<close> walks the reversed path and collects the
  suffix. (The separator is the slash.)
\<close>

fun ext_scan :: "string \<Rightarrow> string \<Rightarrow> string" where
  "ext_scan suffix [] = []"
| "ext_scan suffix (c # cs) =
     (if c = CHR ''/'' then []
      else if c = CHR ''.'' then c # suffix
      else ext_scan (c # suffix) cs)"

definition Ext :: "string \<Rightarrow> string" where
  "Ext path = ext_scan [] (rev path)"

text \<open>\<open>strings.Join\<close>.\<close>

fun Join :: "string list \<Rightarrow> string \<Rightarrow> string" where
  "Join [] sep = []"
| "Join [x] sep = x"
| "Join (x # y # ys) sep = x @ sep @ Join (y # ys) sep"

section \<open>Program B: FetchAndAnalyzeData\<close>

text \<open>
  The three type switches of lines 81 to 100: a number is taken as it is, a string is
  scanned (the variable stays 0 when the scan fails), anything else leaves 0.
\<close>

definition number_of :: "scanner \<Rightarrow> jvalue \<Rightarrow> float64" where
  "number_of scan v =
     (case v of
        JNumber x \<Rightarrow> x
      | JString s \<Rightarrow> (case scan s of Some x \<Rightarrow> x | None \<Rightarrow> Fin 0)
      | _ \<Rightarrow> Fin 0)"

definition apiURL :: "string \<Rightarrow> string" where
  "apiURL address =
     ''https://gmgn.ai/_next/data/uFrHZZO4a9NWehviXLbes/sol/address/'' @ address @ ''.json?chain=sol''"

text \<open>
  \<open>FetchAndAnalyzeData e t address\<close> is the call made as call number \<open>t\<close>: what it returns
  (\<open>Inr None\<close> is \<open>nil, nil\<close>) and the events it causes, the browser session with its
  timeout of 30 seconds and the line logged.
\<close>

definition FetchAndAnalyzeData :: "env \<Rightarrow> nat \<Rightarrow> string \<Rightarrow> (error + Result option) \<times> event list" where
  "FetchAndAnalyzeData e t address =
     (case chromedp_Run e t (apiURL address) 30 of
        Inl err \<Rightarrow> (Inl (AccessFailed err), [Navigate (apiURL address) 30])
      | Inr jsonContent \<Rightarrow>
          (case Unmarshal_AddrData e jsonContent of
             Inl err \<Rightarrow> (Inl (JSONFailed err), [Navigate (apiURL address) 30])
           | Inr addr \<Rightarrow>
               (let totalProfit = number_of (Sscanf e) (TotalProfit addr);
                    solBalance = number_of (Sscanf e) (SolBalance addr);
                    winRate = number_of (Sscanf e) (WinRate addr)
                in if (f64_ge totalProfit (Fin 1000000) \<and> f64_ge solBalance (Fin 20) \<and>
                       f64_ge winRate (Fin 0.1)) \<or>
                      (f64_ge totalProfit (Fin 10000) \<and> f64_ge winRate (Fin 0.755))
                   then (Inr (Some \<lparr>Address = address,
                            Label = ''profit:'' @ Sprintf_f e 2 totalProfit @
                                    '',balance:'' @ Sprintf_f e 2 solBalance @
                                    '',winrate:'' @ Sprintf_f e 3 winRate @
                                    '',name:'' @ TwitterName addr\<rparr>),
                         [Navigate (apiURL address) 30,
                          Log (Qualified address totalProfit solBalance winRate (TwitterName addr))])
                   else (Inr None,
                         [Navigate (apiURL address) 30,
                          Log (NotQualified address totalProfit solBalance winRate (TwitterName addr))]))))"

text \<open>The rule of the specification, in its words: a function of three numbers.\<close>

definition spec_qualifies :: "float64 \<Rightarrow> float64 \<Rightarrow> float64 \<Rightarrow> bool" where
  "spec_qualifies total_profit sol_balance win_rate =
     ((f64_ge total_profit (Fin 1000000) \<and> f64_ge sol_balance (Fin 20) \<and> f64_ge win_rate (Fin 0.1))
      \<or> (f64_ge total_profit (Fin 10000) \<and> f64_ge win_rate (Fin 0.755)))"

section \<open>Program B: readAddressesFromFile\<close>

text \<open>
  The text branch. \<open>ScanLines\<close> is \<open>bufio.Scanner\<close> on the content: the lines it yields and
  the error it stops with, if any. The first line is dropped when it holds two blanks in
  a row (a header); otherwise the program starts a new scanner on the same content.
  \<open>txt_items\<close> is the loop of lines 147 to 158.
\<close>

fun txt_items :: "env \<Rightarrow> string list \<Rightarrow> AddressItem list \<Rightarrow> AddressItem list" where
  "txt_items e [] addresses = addresses"
| "txt_items e (line # lines) addresses =
     (let parts = Fields e line
      in if 2 \<le> length parts
         then txt_items e lines
                (addresses @ [\<lparr>AddressItem.Address = parts ! 0,
                               AddressItem.Label = Join (tl parts) '' ''\<rparr>])
         else txt_items e lines addresses)"

definition read_txt :: "env \<Rightarrow> string \<Rightarrow> error + AddressItem list" where
  "read_txt e content =
     (case ScanLines e content of
        (lines, err) \<Rightarrow>
          (let rest = (case lines of
                         [] \<Rightarrow> []
                       | firstLine # others \<Rightarrow> if Contains firstLine ''  '' then others else lines);
               addresses = txt_items e rest []
           in case err of
                Some x \<Rightarrow> Inl (ReadTXTFailed x)
              | None \<Rightarrow> Inr addresses))"

definition readAddressesFromFile :: "env \<Rightarrow> string \<Rightarrow> world \<Rightarrow> (error + AddressItem list) \<times> world" where
  "readAddressesFromFile e filePath w =
     (case ReadFile e filePath w of
        (Inl err, w1) \<Rightarrow> (Inl (ReadFileFailed err), w1)
      | (Inr content, w1) \<Rightarrow>
          (if Ext filePath = ''.json'' then
             (case Unmarshal_items e content of
                Inl err \<Rightarrow> (Inl (ParseJSONFailed err), w1)
              | Inr addresses \<Rightarrow> (Inr addresses, w1))
           else if Ext filePath = ''.txt'' then (read_txt e content, w1)
           else (Inl (UnsupportedFormat (Ext filePath)), w1)))"

section \<open>Program B: the loop over the files of processAddressFiles\<close>

text \<open>
  Lines 228 to 306. \<open>process_address\<close> is one iteration of the loop over the addresses of
  a file (lines 243 to 253), on the two lists it fills and the world.
\<close>

record DirEntry =
  Name :: string
  IsDir :: bool

definition process_address ::
  "env \<Rightarrow> AddressItem \<Rightarrow> AddressItem list \<times> Result list \<times> world \<Rightarrow> AddressItem list \<times> Result list \<times> world" where
  "process_address e item st =
     (case st of
        (validAddresses, fileResults, w) \<Rightarrow>
          (case FetchAndAnalyzeData e (tick w) (AddressItem.Address item) of
             (res, evs) \<Rightarrow>
               (let w1 = next_tick (w\<lparr>trace := trace w @ evs\<rparr>)
                in case res of
                     Inl err \<Rightarrow>
                       (validAddresses, fileResults,
                        emit (Sleep 2) (emit (Log (AddressFailed (AddressItem.Address item) err)) w1))
                   | Inr None \<Rightarrow> (validAddresses, fileResults, emit (Sleep 2) w1)
                   | Inr (Some result) \<Rightarrow>
                       (validAddresses @ [item], fileResults @ [result], emit (Sleep 2) w1))))"

fun process_addresses ::
  "env \<Rightarrow> AddressItem list \<Rightarrow> AddressItem list \<times> Result list \<times> world \<Rightarrow> AddressItem list \<times> Result list \<times> world" where
  "process_addresses e [] st = st"
| "process_addresses e (item # items) st = process_addresses e items (process_address e item st)"

text \<open>The text written for a \<open>.txt\<close> file: the header and one line for each address.\<close>

definition txt_content :: "AddressItem list \<Rightarrow> string" where
  "txt_content validAddresses =
     ''address  label'' @ [CHR 0x0A] @
     concat (map (\<lambda>addr. AddressItem.Address addr @ ''  '' @ AddressItem.Label addr @ [CHR 0x0A])
                 validAddresses)"

text \<open>
  Lines 256 to 288: the file is written again or removed. The result is \<open>False\<close> when the
  iteration ends there with \<open>continue\<close>.
\<close>

definition update_file :: "env \<Rightarrow> string \<Rightarrow> string \<Rightarrow> AddressItem list \<Rightarrow> world \<Rightarrow> bool \<times> world" where
  "update_file e name filePath validAddresses w =
     (if validAddresses \<noteq> [] then
        (if Ext name = ''.json'' then
           (case MarshalIndent_items e validAddresses of
              Inl err \<Rightarrow> (False, emit (Log (UpdateFailed name err)) w)
            | Inr updatedContent \<Rightarrow>
                (case WriteFile e filePath updatedContent w of
                   (Some err, w1) \<Rightarrow> (False, emit (Log (SaveFailed name err)) w1)
                 | (None, w1) \<Rightarrow> (True, emit (Log (FileUpdated name (length validAddresses))) w1)))
         else
           (case WriteFile e filePath (txt_content validAddresses) w of
              (Some err, w1) \<Rightarrow> (False, emit (Log (SaveFailed name err)) w1)
            | (None, w1) \<Rightarrow> (True, emit (Log (FileUpdated name (length validAddresses))) w1)))
      else
        (case Remove e filePath w of
           (Some err, w1) \<Rightarrow> (True, emit (Log (DeleteFailed name err)) w1)
         | (None, w1) \<Rightarrow> (True, emit (Log (FileDeleted name)) w1)))"

text \<open>Lines 291 to 304: the results of the file join the others and \<open>ad.json\<close> is written.\<close>

definition save_results :: "env \<Rightarrow> Result list \<Rightarrow> Result list \<times> world \<Rightarrow> Result list \<times> world" where
  "save_results e fileResults st =
     (case st of
        (allResults, w) \<Rightarrow>
          if fileResults \<noteq> [] then
            (case MarshalIndent_results e (allResults @ fileResults) of
               Inl err \<Rightarrow> (allResults @ fileResults, emit (Log (SaveTotalFailed err)) w)
             | Inr resultJSON \<Rightarrow>
                 (case WriteFile e ''ad.json'' resultJSON w of
                    (Some err, w1) \<Rightarrow>
                      (allResults @ fileResults, emit (Log (SaveTotalFileFailed err)) w1)
                  | (None, w1) \<Rightarrow>
                      (allResults @ fileResults,
                       emit (Log (TotalUpdated (length (allResults @ fileResults)))) w1)))
          else (allResults, w))"

text \<open>
  One iteration of the loop over the files. \<open>filepath.Join("ad_json", name)\<close> of the name
  of a directory entry is \<open>ad_json/name\<close>.
\<close>

definition process_file :: "env \<Rightarrow> DirEntry \<Rightarrow> Result list \<times> world \<Rightarrow> Result list \<times> world" where
  "process_file e file st =
     (case st of
        (allResults, w) \<Rightarrow>
          if \<not> IsDir file \<and> (Ext (Name file) = ''.json'' \<or> Ext (Name file) = ''.txt'') then
            (case readAddressesFromFile e (''ad_json/'' @ Name file) w of
               (Inl err, w1) \<Rightarrow> (allResults, emit (Log (FileFailed (Name file) err)) w1)
             | (Inr addresses, w1) \<Rightarrow>
                 (case process_addresses e addresses ([], [], w1) of
                    (validAddresses, fileResults, w2) \<Rightarrow>
                      (case update_file e (Name file) (''ad_json/'' @ Name file) validAddresses w2 of
                         (False, w3) \<Rightarrow> (allResults, w3)
                       | (True, w3) \<Rightarrow> save_results e fileResults (allResults, w3))))
          else (allResults, w))"

fun process_files :: "env \<Rightarrow> DirEntry list \<Rightarrow> Result list \<times> world \<Rightarrow> Result list \<times> world" where
  "process_files e [] st = st"
| "process_files e (file # files) st = process_files e files (process_file e file st)"

text \<open>
  The addresses of a file that qualify, in the words of the specification: the call
  number \<open>t\<close> looks the first address up, the next call the next one.
\<close>

definition fetch_qualifies :: "env \<Rightarrow> nat \<Rightarrow> string \<Rightarrow> bool" where
  "fetch_qualifies e t address =
     (case fst (FetchAndAnalyzeData e t address) of
        Inr (Some r) \<Rightarrow> True
      | _ \<Rightarrow> False)"

fun qualified_items :: "env \<Rightarrow> nat \<Rightarrow> AddressItem list \<Rightarrow> AddressItem list" where
  "qualified_items e t [] = []"
| "qualified_items e t (item # items) =
     (if fetch_qualifies e t (AddressItem.Address item)
      then item # qualified_items e (Suc t) items
      else qualified_items e (Suc t) items)"

text \<open>The events that take time: browser sessions and sleeps.\<close>

fun is_timing :: "event \<Rightarrow> bool" where
  "is_timing (Navigate url timeout) = True"
| "is_timing (Sleep seconds) = True"
| "is_timing ev = False"

section \<open>Program A\<close>

definition walletURL :: "string \<Rightarrow> string" where
  "walletURL channelID =
     ''https://chain.fm/api/trpc/walletItem.listBuyChannel?batch=1&input={'' @
     [CHR 0x22] @ ''0'' @ [CHR 0x22] @ '':{'' @ [CHR 0x22] @ ''json'' @ [CHR 0x22] @ '':{'' @
     [CHR 0x22] @ ''chanelId'' @ [CHR 0x22] @ '':'' @ [CHR 0x22] @ channelID @ [CHR 0x22] @ ''}}}''"

definition fetchWalletData :: "env \<Rightarrow> string \<Rightarrow> world \<Rightarrow> (error + WalletItem list) \<times> world" where
  "fetchWalletData e channelID w =
     (let w1 = next_tick (emit (HttpGet (walletURL channelID)) w)
      in case http_Get e (tick w) (walletURL channelID) of
           GetError err \<Rightarrow> (Inl (RequestFailed err), w1)
         | ReadError err \<Rightarrow> (Inl (ReadBodyFailed err), w1)
         | Body body \<Rightarrow>
             (case Unmarshal_wallet e body of
                Inl err \<Rightarrow> (Inl (ParseResponseFailed err), w1)
              | Inr data \<Rightarrow> (Inr data, w1)))"

text \<open>The loop of lines 72 to 82 on the entries of the first element of the response.\<close>

fun collect_outputs :: "WalletEntry list \<Rightarrow> WalletOutput list \<Rightarrow> WalletOutput list" where
  "collect_outputs [] outputs = outputs"
| "collect_outputs (item # items) outputs =
     (case Labels item of
        [] \<Rightarrow> collect_outputs items outputs
      | label # others \<Rightarrow>
          collect_outputs items
            (outputs @ [\<lparr>WalletOutput.Address = WalletEntry.Address item, WalletOutput.Label = label\<rparr>]))"

text \<open>
  One iteration of the loop of \<open>main\<close> (lines 60 to 99). \<open>data[0]\<close> panics on an empty
  list, and the program ends there: the result is the panic, if any, and the world as
  the iteration leaves it.
\<close>

definition process_channel :: "env \<Rightarrow> string \<Rightarrow> world \<Rightarrow> panic option \<times> world" where
  "process_channel e channelID w0 =
     (case fetchWalletData e channelID (emit (Print (Processing channelID)) w0) of
        (Inl err, w1) \<Rightarrow> (None, emit (Print (FetchFailed channelID err)) w1)
      | (Inr data, w1) \<Rightarrow>
          (case index_go data 0 of
             Inl p \<Rightarrow> (Some p, w1)
           | Inr first \<Rightarrow>
               (case MarshalIndent_outputs e (collect_outputs (Json first) []) of
                  Inl err \<Rightarrow> (None, emit (Print (MarshalFailed channelID err)) w1)
                | Inr jsonData \<Rightarrow>
                    (case WriteFile e (channelID @ ''.json'') jsonData w1 of
                       (Some err, w2) \<Rightarrow>
                         (None, emit (Print (WriteFailed (channelID @ ''.json'') err)) w2)
                     | (None, w2) \<Rightarrow> (None, emit (Print (Saved (channelID @ ''.json''))) w2)))))"

fun run_channels :: "env \<Rightarrow> string list \<Rightarrow> world \<Rightarrow> panic option \<times> world" where
  "run_channels e [] w = (None, w)"
| "run_channels e (channelID # channelIDs) w =
     (case process_channel e channelID w of
        (Some p, w1) \<Rightarrow> (Some p, w1)
      | (None, w1) \<Rightarrow> run_channels e channelIDs w1)"

text \<open>\<open>main\<close> of \<open>Get_Address.go\<close> on the arguments \<open>os.Args\<close>.\<close>

definition Get_Address_main :: "env \<Rightarrow> string list \<Rightarrow> world \<Rightarrow> panic option \<times> world" where
  "Get_Address_main e args w =
     (if length args < 2 then (None, emit (Print Usage) w)
      else run_channels e (drop 1 args) w)"

text \<open>
  The records of the entries that have a label, in the words of the specification: the
  entries without label are filtered out and each other one gives its address with its
  first label.
\<close>

definition labelled_outputs :: "WalletEntry list \<Rightarrow> WalletOutput list" where
  "labelled_outputs entries =
     map (\<lambda>x. \<lparr>WalletOutput.Address = WalletEntry.Address x, WalletOutput.Label = hd (Labels x)\<rparr>)
         (filter (\<lambda>x. Labels x \<noteq> []) entries)"

section \<open>encoding/json for a list of address items\<close>

text \<open>
  \<open>json.MarshalIndent(v, "", "  ")\<close> and \<open>json.Unmarshal\<close> for a \<open>[]AddressItem\<close>, whose
  fields carry the tags \<open>address\<close> and \<open>label\<close>. Both belong to Go's library, not to the
  programs; the definitions follow what the library documents and are used where a
  property depends on the text itself. A Go string is a sequence of bytes, here a list
  of \<open>char\<close>.

  Writing a string: the quote and the backslash get a backslash; backspace, form feed,
  newline, carriage return and tab their short escape; every other byte below \<open>0x20\<close>
  and \<open><\<close>, \<open>>\<close>, \<open>&\<close> are written as a \<open>u\<close> escape with four hexadecimal digits, and
  so are U+2028 and U+2029; a byte that does not start a well-formed UTF-8 sequence is
  written as the \<open>u\<close> escape of U+FFFD, the replacement character; everything else is
  copied. \<open>utf8_len\<close> is the length of the well-formed UTF-8 sequence a string starts
  with, 0 when there is none.
\<close>

definition byte :: "char \<Rightarrow> nat" where
  "byte c = of_char c"

definition continuation :: "char \<Rightarrow> bool" where
  "continuation c = (0x80 \<le> byte c \<and> byte c \<le> 0xBF)"

definition utf8_len :: "string \<Rightarrow> nat" where
  "utf8_len s =
     (case s of
        [] \<Rightarrow> 0
      | b0 # r \<Rightarrow>
          if byte b0 < 0x80 then 1
          else if 0xC2 \<le> byte b0 \<and> byte b0 \<le> 0xDF then
            (case r of
               b1 # r1 \<Rightarrow> if continuation b1 then 2 else 0
             | [] \<Rightarrow> 0)
          else if 0xE0 \<le> byte b0 \<and> byte b0 \<le> 0xEF then
            (case r of
               b1 # b2 # r2 \<Rightarrow>
                 if (if byte b0 = 0xE0 then 0xA0 else 0x80) \<le> byte b1 \<and>
                    byte b1 \<le> (if byte b0 = 0xED then 0x9F else 0xBF) \<and> continuation b2
                 then 3 else 0
             | _ \<Rightarrow> 0)
          else if 0xF0 \<le> byte b0 \<and> byte b0 \<le> 0xF4 then
            (case r of
               b1 # b2 # b3 # r3 \<Rightarrow>
                 if (if byte b0 = 0xF0 then 0x90 else 0x80) \<le> byte b1 \<and>
                    byte b1 \<le> (if byte b0 = 0xF4 then 0x8F else 0xBF) \<and>
                    continuation b2 \<and> continuation b3
                 then 4 else 0
             | _ \<Rightarrow> 0)
          else 0)"

function valid_utf8 :: "string \<Rightarrow> bool" where
  "valid_utf8 s =
     (if s = [] then True
      else if utf8_len s = 0 then False
      else valid_utf8 (drop (utf8_len s) s))"
  by pat_completeness auto
termination
  by (relation "measure length") auto

declare valid_utf8.simps [simp del]

definition hex :: "nat \<Rightarrow> char" where
  "hex d = ''0123456789abcdef'' ! d"

definition escape_byte :: "char \<Rightarrow> string" where
  "escape_byte b =
     (if b = CHR 0x22 \<or> b = CHR 0x5C then [CHR 0x5C, b]
      else if b = CHR 0x08 then [CHR 0x5C, CHR ''b'']
      else if b = CHR 0x0C then [CHR 0x5C, CHR ''f'']
      else if b = CHR 0x0A then [CHR 0x5C, CHR ''n'']
      else if b = CHR 0x0D then [CHR 0x5C, CHR ''r'']
      else if b = CHR 0x09 then [CHR 0x5C, CHR ''t'']
      else if byte b < 0x20 \<or> b = CHR ''<'' \<or> b = CHR ''>'' \<or> b = CHR ''&''
      then [CHR 0x5C, CHR ''u'', CHR ''0'', CHR ''0'', hex (byte b div 16), hex (byte b mod 16)]
      else [b])"

function quote_body :: "string \<Rightarrow> string" where
  "quote_body s =
     (case s of
        [] \<Rightarrow> []
      | b # r \<Rightarrow>
          if byte b < 0x80 then escape_byte b @ quote_body r
          else if utf8_len s = 0 then [CHR 0x5C] @ ''ufffd'' @ quote_body r
          else if take 3 s = [CHR 0xE2, CHR 0x80, CHR 0xA8]
          then [CHR 0x5C] @ ''u2028'' @ quote_body (drop (utf8_len s) s)
          else if take 3 s = [CHR 0xE2, CHR 0x80, CHR 0xA9]
          then [CHR 0x5C] @ ''u2029'' @ quote_body (drop (utf8_len s) s)
          else take (utf8_len s) s @ quote_body (drop (utf8_len s) s))"
  by pat_completeness auto
termination
  by (relation "measure length") auto

declare quote_body.simps [simp del]

definition json_quote :: "string \<Rightarrow> string" where
  "json_quote s = [CHR 0x22] @ quote_body s @ [CHR 0x22]"


definition nl :: string where
  "nl = [CHR 0x0A]"

definition item_text :: "AddressItem \<Rightarrow> string" where
  \<open>item_text x =
     ''  {'' @ nl @ ''    "address": '' @ json_quote (AddressItem.Address x) @ '','' @ nl @
     ''    "label": '' @ json_quote (AddressItem.Label x) @ nl @ ''  }''\<close>

definition json_MarshalIndent :: "AddressItem list \<Rightarrow> string" where
  "json_MarshalIndent xs =
     (if xs = [] then ''null''
      else ''['' @ nl @ Join (map item_text xs) ('','' @ nl) @ nl @ '']'')"

text \<open>
  Reading. \<open>unquote_body\<close> reads a string after its opening quote, up to the closing
  one: escapes are resolved (a pair of surrogate escapes gives one character, a lone
  one the replacement character), a raw byte that does not start a well-formed UTF-8
  sequence becomes the replacement character, a raw control character is an error.
  \<open>json_Unmarshal\<close> is \<open>Some xs\<close> where the text is \<open>null\<close> or an array of objects whose
  members are \<open>address\<close> and \<open>label\<close> with string values, between any white space: there
  the library returns \<open>xs\<close>. It is \<open>None\<close> on every other text, on which nothing is said
  (the library rejects some and accepts others). The recursion over members and elements
  is bounded by the length of the text.
\<close>

definition is_ws :: "char \<Rightarrow> bool" where
  "is_ws c = (c = CHR 0x20 \<or> c = CHR 0x09 \<or> c = CHR 0x0D \<or> c = CHR 0x0A)"

definition skip_ws :: "string \<Rightarrow> string" where
  "skip_ws s = dropWhile is_ws s"

definition hex_val :: "char \<Rightarrow> nat option" where
  "hex_val c =
     (if 48 \<le> byte c \<and> byte c \<le> 57 then Some (byte c - 48)
      else if 97 \<le> byte c \<and> byte c \<le> 102 then Some (byte c - 87)
      else if 65 \<le> byte c \<and> byte c \<le> 70 then Some (byte c - 55)
      else None)"

definition getu4 :: "string \<Rightarrow> nat option" where
  "getu4 s =
     (case s of
        bs # u # h1 # h2 # h3 # h4 # r \<Rightarrow>
          if bs = CHR 0x5C \<and> u = CHR ''u'' then
            (case (hex_val h1, hex_val h2, hex_val h3, hex_val h4) of
               (Some a, Some b, Some c, Some d) \<Rightarrow> Some (a * 4096 + b * 256 + c * 16 + d)
             | _ \<Rightarrow> None)
          else None
      | _ \<Rightarrow> None)"

definition utf8_encode :: "nat \<Rightarrow> string" where
  "utf8_encode cp =
     (if cp < 0x80 then [char_of cp]
      else if cp < 0x800 then [char_of (0xC0 + cp div 64), char_of (0x80 + cp mod 64)]
      else if 0xD800 \<le> cp \<and> cp < 0xE000 then [CHR 0xEF, CHR 0xBF, CHR 0xBD]
      else if cp < 0x10000
      then [char_of (0xE0 + cp div 4096), char_of (0x80 + cp div 64 mod 64), char_of (0x80 + cp mod 64)]
      else if cp < 0x110000
      then [char_of (0xF0 + cp div 262144), char_of (0x80 + cp div 4096 mod 64),
            char_of (0x80 + cp div 64 mod 64), char_of (0x80 + cp mod 64)]
      else [CHR 0xEF, CHR 0xBF, CHR 0xBD])"

definition prepend :: "string \<Rightarrow> (string \<times> string) option \<Rightarrow> (string \<times> string) option" where
  "prepend p res = (case res of None \<Rightarrow> None | Some (d, rest) \<Rightarrow> Some (p @ d, rest))"

function unquote_body :: "string \<Rightarrow> (string \<times> string) option" where
  "unquote_body s =
     (case s of
        [] \<Rightarrow> None
      | c # r \<Rightarrow>
          if c = CHR 0x22 then Some ([], r)
          else if c = CHR 0x5C then
            (case r of
               [] \<Rightarrow> None
             | e # r1 \<Rightarrow>
                 if e = CHR ''u'' then
                   (case getu4 s of
                      None \<Rightarrow> None
                    | Some rr \<Rightarrow>
                        if 0xD800 \<le> rr \<and> rr < 0xDC00 then
                          (case getu4 (drop 6 s) of
                             Some rr1 \<Rightarrow>
                               if 0xDC00 \<le> rr1 \<and> rr1 < 0xE000
                               then prepend (utf8_encode (0x10000 + (rr - 0xD800) * 1024 + (rr1 - 0xDC00)))
                                      (unquote_body (drop 12 s))
                               else prepend (utf8_encode rr) (unquote_body (drop 6 s))
                           | None \<Rightarrow> prepend (utf8_encode rr) (unquote_body (drop 6 s)))
                        else prepend (utf8_encode rr) (unquote_body (drop 6 s)))
                 else if e = CHR 0x22 \<or> e = CHR 0x5C \<or> e = CHR ''/'' then prepend [e] (unquote_body r1)
                 else if e = CHR ''b'' then prepend [CHR 0x08] (unquote_body r1)
                 else if e = CHR ''f'' then prepend [CHR 0x0C] (unquote_body r1)
                 else if e = CHR ''n'' then prepend [CHR 0x0A] (unquote_body r1)
                 else if e = CHR ''r'' then prepend [CHR 0x0D] (unquote_body r1)
                 else if e = CHR ''t'' then prepend [CHR 0x09] (unquote_body r1)
                 else None)
          else if byte c < 0x20 then None
          else if byte c < 0x80 then prepend [c] (unquote_body r)
          else if utf8_len s = 0 then prepend [CHR 0xEF, CHR 0xBF, CHR 0xBD] (unquote_body r)
          else prepend (take (utf8_len s) s) (unquote_body (drop (utf8_len s) s)))"
  by pat_completeness auto
termination
  by (relation "measure length") auto

declare unquote_body.simps [simp del]

definition read_string :: "string \<Rightarrow> (string \<times> string) option" where
  "read_string s =
     (case skip_ws s of
        c # r \<Rightarrow> if c = CHR 0x22 then unquote_body r else None
      | [] \<Rightarrow> None)"

fun read_members :: "nat \<Rightarrow> AddressItem \<Rightarrow> string \<Rightarrow> (AddressItem \<times> string) option" where
  "read_members 0 item s = None"
| "read_members (Suc n) item s =
     (case read_string s of
        None \<Rightarrow> None
      | Some (key, s1) \<Rightarrow>
          (case skip_ws s1 of
             c # s2 \<Rightarrow>
               if c = CHR '':'' then
                 (case read_string s2 of
                    None \<Rightarrow> None
                  | Some (v, s3) \<Rightarrow>
                      (let item' =
                         (if key = ''address'' then item\<lparr>AddressItem.Address := v\<rparr>
                          else item\<lparr>AddressItem.Label := v\<rparr>)
                       in if key \<noteq> ''address'' \<and> key \<noteq> ''label'' then None
                          else
                            (case skip_ws s3 of
                               d # s4 \<Rightarrow>
                                 if d = CHR '','' then read_members n item' s4
                                 else if d = CHR ''}'' then Some (item', s4)
                                 else None
                             | [] \<Rightarrow> None)))
               else None
           | [] \<Rightarrow> None))"

definition read_object :: "string \<Rightarrow> (AddressItem \<times> string) option" where
  "read_object s =
     (case skip_ws s of
        c # s1 \<Rightarrow>
          if c = CHR ''{'' then
            (case skip_ws s1 of
               d # s2 \<Rightarrow>
                 if d = CHR ''}''
                 then Some (\<lparr>AddressItem.Address = [], AddressItem.Label = []\<rparr>, s2)
                 else read_members (length s1) \<lparr>AddressItem.Address = [], AddressItem.Label = []\<rparr> s1
             | [] \<Rightarrow> None)
          else None
      | [] \<Rightarrow> None)"

fun read_elements :: "nat \<Rightarrow> string \<Rightarrow> (AddressItem list \<times> string) option" where
  "read_elements 0 s = None"
| "read_elements (Suc n) s =
     (case read_object s of
        None \<Rightarrow> None
      | Some (x, s1) \<Rightarrow>
          (case skip_ws s1 of
             c # s2 \<Rightarrow>
               if c = CHR '','' then
                 (case read_elements n s2 of
                    None \<Rightarrow> None
                  | Some (xs, s3) \<Rightarrow> Some (x # xs, s3))
               else if c = CHR '']'' then Some ([x], s2)
               else None
           | [] \<Rightarrow> None))"

definition json_Unmarshal :: "string \<Rightarrow> AddressItem list option" where
  "json_Unmarshal s =
     (case skip_ws s of
        [] \<Rightarrow> None
      | c # s1 \<Rightarrow>
          if take 4 (c # s1) = ''null'' then
            (if skip_ws (drop 4 (c # s1)) = [] then Some [] else None)
          else if c = CHR ''['' then
            (case skip_ws s1 of
               [] \<Rightarrow> None
             | d # s2 \<Rightarrow>
                 if d = CHR '']'' then (if skip_ws s2 = [] then Some [] else None)
                 else
                   (case read_elements (length s1) s1 of
                      None \<Rightarrow> None
                    | Some (xs, r) \<Rightarrow> if skip_ws r = [] then Some xs else None))
          else None)"

text \<open>
  An environment whose library calls for the address list are the two functions above
  (a text on which \<open>json_Unmarshal\<close> says nothing is answered with an error; the
  environment is only run on texts on which it says something).
\<close>

definition json_env :: "env \<Rightarrow> env" where
  "json_env e = e\<lparr>MarshalIndent_items := (\<lambda>xs. Inr (json_MarshalIndent xs)),
                  Unmarshal_items := (\<lambda>s. case json_Unmarshal s of
                                             None \<Rightarrow> Inl ''invalid JSON''
                                           | Some xs \<Rightarrow> Inr xs)\<rparr>"

section \<open>A scenario\<close>

text \<open>
  A concrete environment and world, to run the programs on. The web knows three
  addresses: \<open>GOOD\<close> qualifies, \<open>POOR\<close> does not, and the session for any other address
  fails. The library functions answer as Go's do on the texts of the scenario and are
  not meant beyond it. \<open>indent_records\<close> is the text \<open>json.MarshalIndent\<close> gives for a list
  of records with an address and a label whose strings need no escaping (\<open>null\<close> for the
  empty list, which these programs only have as a nil slice).
\<close>

definition record_text :: "string \<times> string \<Rightarrow> string" where
  \<open>record_text r =
     ''  {'' @ [CHR 0x0A] @ ''    "address": "'' @ fst r @ ''",'' @ [CHR 0x0A] @
     ''    "label": "'' @ snd r @ ''"'' @ [CHR 0x0A] @ ''  }''\<close>

definition indent_records :: "(string \<times> string) list \<Rightarrow> string" where
  "indent_records rs =
     (if rs = [] then ''null''
      else ''['' @ [CHR 0x0A] @ Join (map record_text rs) ('','' @ [CHR 0x0A]) @ [CHR 0x0A] @ '']'')"

definition good_page :: string where
  \<open>good_page = ''{"pageProps":{"addressInfo":{"total_profit":20000,"sol_balance":"1.5","winrate":0.8,"twitter_name":"alice"}}}''\<close>

definition poor_page :: string where
  \<open>poor_page = ''{"pageProps":{"addressInfo":{"total_profit":500,"sol_balance":"0.2","winrate":0.3,"twitter_name":"bob"}}}''\<close>

definition list_json :: string where
  \<open>list_json = ''[{"address":"GOOD","label":"whale"},{"address":"POOR","label":"fish"},{"address":"DOWN","label":"ghost"}]''\<close>

definition poor_json :: string where
  \<open>poor_json = ''[{"address":"POOR","label":"fish"}]''\<close>

definition list_txt :: string where
  "list_txt = ''address  label'' @ [CHR 0x0A] @ ''GOOD  big whale'' @ [CHR 0x0A] @ ''POOR  fish'' @ [CHR 0x0A]"

definition wallet_body :: string where
  \<open>wallet_body = ''[{"result":{"data":{"json":[{"address":"W1","labels":["smart","early"]},{"address":"W2","labels":[]}]}}}]''\<close>

definition demo_env :: env where
  "demo_env =
     \<lparr>chromedp_Run = (\<lambda>t url timeout.
          if url = apiURL ''GOOD'' then Inr good_page
          else if url = apiURL ''POOR'' then Inr poor_page
          else Inl ''context deadline exceeded''),
      Unmarshal_AddrData = (\<lambda>s.
          if s = good_page
          then Inr \<lparr>TotalProfit = JNumber (Fin 20000), SolBalance = JString ''1.5'',
                    WinRate = JNumber (Fin 0.8), TwitterName = ''alice''\<rparr>
          else if s = poor_page
          then Inr \<lparr>TotalProfit = JNumber (Fin 500), SolBalance = JString ''0.2'',
                    WinRate = JNumber (Fin 0.3), TwitterName = ''bob''\<rparr>
          else Inl ''unexpected end of JSON input''),
      Sscanf = Sscanf_f,
      Sprintf_f = (\<lambda>prec x.
          if prec = 2 \<and> x = Fin 20000 then ''20000.00''
          else if prec = 2 \<and> x = Fin 1.5 then ''1.50''
          else if prec = 3 \<and> x = Fin 0.8 then ''0.800''
          else ''0.00''),
      Unmarshal_items = (\<lambda>s.
          if s = list_json
          then Inr [\<lparr>AddressItem.Address = ''GOOD'', AddressItem.Label = ''whale''\<rparr>,
                    \<lparr>AddressItem.Address = ''POOR'', AddressItem.Label = ''fish''\<rparr>,
                    \<lparr>AddressItem.Address = ''DOWN'', AddressItem.Label = ''ghost''\<rparr>]
          else if s = poor_json
          then Inr [\<lparr>AddressItem.Address = ''POOR'', AddressItem.Label = ''fish''\<rparr>]
          else Inl ''unexpected end of JSON input''),
      MarshalIndent_items = (\<lambda>xs.
          Inr (indent_records (map (\<lambda>x. (AddressItem.Address x, AddressItem.Label x)) xs))),
      MarshalIndent_results = (\<lambda>xs. Inr (indent_records (map (\<lambda>x. (Address x, Label x)) xs))),
      ScanLines = (\<lambda>s.
          if s = list_txt then ([''address  label'', ''GOOD  big whale'', ''POOR  fish''], None)
          else ([], None)),
      Fields = (\<lambda>s.
          if s = ''GOOD  big whale'' then [''GOOD'', ''big'', ''whale'']
          else if s = ''POOR  fish'' then [''POOR'', ''fish'']
          else []),
      io_error = (\<lambda>t op.
          case op of
            OpWrite path content \<Rightarrow>
              if path = ''c4.json'' \<or> path = ''ad_json/locked.json''
              then Some ''permission denied'' else None
          | _ \<Rightarrow> None),
      http_Get = (\<lambda>t url.
          if url = walletURL ''c1'' then Body ''[]''
          else if url = walletURL ''c2'' \<or> url = walletURL ''c4'' then Body wallet_body
          else GetError ''no such host''),
      Unmarshal_wallet = (\<lambda>s.
          if s = ''[]'' then Inr []
          else if s = wallet_body
          then Inr [\<lparr>Json = [\<lparr>WalletEntry.Address = ''W1'', Labels = [''smart'', ''early'']\<rparr>,
                             \<lparr>WalletEntry.Address = ''W2'', Labels = []\<rparr>]\<rparr>]
          else Inl ''unexpected end of JSON input''),
      MarshalIndent_outputs = (\<lambda>xs.
          Inr (indent_records (map (\<lambda>x. (WalletOutput.Address x, WalletOutput.Label x)) xs)))\<rparr>"

definition demo_world :: world where
  "demo_world =
     \<lparr>fs = [''ad_json/list.json'' \<mapsto> list_json, ''ad_json/poor.json'' \<mapsto> poor_json,
             ''ad_json/list.txt'' \<mapsto> list_txt, ''ad_json/locked.json'' \<mapsto> list_json],
      trace = [], tick = 0\<rparr>"

section \<open>Properties of strings.Split and of the comparisons\<close>

lemma split_go_length: "1 \<le> length (split_go sep acc s)"
  by (induction sep acc s rule: split_go.induct) auto

lemma split_go_contains: "sep \<noteq> [] \<Longrightarrow> (2 \<le> length (split_go sep acc s)) = Contains s sep"
proof (induction sep acc s rule: split_go.induct)
  case (1 sep acc)
  then show ?case by simp
next
  case (2 sep acc c cs)
  show ?case
  proof (cases "HasPrefix (c # cs) sep")
    case True
    with 2 split_go_length[of sep "[]" "drop (length sep) (c # cs)"] show ?thesis by simp
  next
    case False
    with 2 show ?thesis by simp
  qed
qed

lemma Split_length_iff: "sep \<noteq> [] \<Longrightarrow> (1 < length (Split s sep)) = Contains s sep"
  using split_go_contains[of sep "[]" s] by (auto simp: Split_def)

lemma Split_length_one: "sep \<noteq> [] \<Longrightarrow> \<not> Contains s sep \<Longrightarrow> length (Split s sep) = 1"
  using Split_length_iff[of sep s] split_go_length[of sep "[]" s] by (simp add: Split_def)

lemma winrate_of_safe:
  "Contains (Label r) ''winrate:'' \<Longrightarrow> winrate_of scan r = Inr (scan (Split (Label r) ''winrate:'' ! 1))"
  using Split_length_iff[of "''winrate:''" "Label r"] by (simp add: winrate_of_def index_go_def)

lemma winrate_of_panic:
  "\<not> Contains (Label r) ''winrate:'' \<Longrightarrow> winrate_of scan r = Inl (IndexOutOfRange 1 1)"
  using Split_length_one[of "''winrate:''" "Label r"] by (simp add: winrate_of_def index_go_def)

lemma f64_lt_trans: "f64_lt a b \<Longrightarrow> f64_lt b c \<Longrightarrow> f64_lt a c"
  by (cases a; cases b; cases c) auto

lemma f64_lt_irrefl: "\<not> f64_lt a a"
  by (cases a) auto

lemma f64_not_lt_le: "a \<noteq> NaN \<Longrightarrow> b \<noteq> NaN \<Longrightarrow> \<not> f64_lt a b \<Longrightarrow> f64_le b a"
  by (cases a; cases b) auto

lemma dedup_step_panic: "winrate_of scan r = Inl p \<Longrightarrow> dedup_step scan r m = Inl p"
  by (simp add: dedup_step_def)

lemma dedup_step_skip:
  "winrate_of scan r = Inr v \<Longrightarrow> \<forall>w. \<not> eligible scan r w \<Longrightarrow> dedup_step scan r m = Inr m"
  by (cases v) (auto simp: dedup_step_def eligible_def)

lemma dedup_step_new:
  "eligible scan r w \<Longrightarrow> map_of m (Address r) = None \<Longrightarrow>
   dedup_step scan r m = Inr (AList.update (Address r) r m)"
  by (simp add: dedup_step_def eligible_def)

lemma dedup_step_existing:
  "eligible scan r w \<Longrightarrow> map_of m (Address r) = Some e \<Longrightarrow> eligible scan e ew \<Longrightarrow>
   dedup_step scan r m = Inr (if f64_gt w ew then AList.update (Address r) r m else m)"
  by (simp add: dedup_step_def eligible_def)

lemma eligible_fun: "eligible scan r w \<Longrightarrow> eligible scan r w' \<Longrightarrow> w = w'"
  by (simp add: eligible_def)

lemma dedup_inv_keep:
  assumes inv: "dedup_inv scan S m" and r: "\<forall>w. \<not> eligible scan r w"
  shows "dedup_inv scan (insert r S) m"
  using inv r unfolding dedup_inv_def by blast

lemma dedup_inv_update:
  assumes inv: "dedup_inv scan S m" and el: "eligible scan r w"
    and better: "\<forall>e ew. map_of m (Address r) = Some e \<longrightarrow> eligible scan e ew \<longrightarrow> f64_gt w ew"
  shows "dedup_inv scan (insert r S) (AList.update (Address r) r m)"
proof -
  have d: "distinct (map fst (AList.update (Address r) r m))"
    using inv by (simp add: dedup_inv_def distinct_update)
  have p2: "\<forall>a x. map_of (AList.update (Address r) r m) a = Some x \<longrightarrow>
              Address x = a \<and> x \<in> insert r S \<and> (\<exists>w. eligible scan x w)"
    using inv el by (auto simp: dedup_inv_def update_conv')
  have p3: "\<exists>s ws. map_of (AList.update (Address r) r m) (Address x) = Some s \<and>
              eligible scan s ws \<and> \<not> f64_gt v ws"
    if x: "x \<in> insert r S" and v: "eligible scan x v" for x v
  proof (cases "x = r")
    case True
    with v el have "v = w" by (auto dest: eligible_fun)
    with True el show ?thesis by (auto simp: update_conv' f64_gt_def f64_lt_irrefl)
  next
    case False
    with x have xS: "x \<in> S" by simp
    from inv xS v obtain s ws where s: "map_of m (Address x) = Some s" "eligible scan s ws"
      "\<not> f64_gt v ws" unfolding dedup_inv_def by blast
    show ?thesis
    proof (cases "Address x = Address r")
      case True
      with s better have "f64_gt w ws" by simp
      with s(3) have "\<not> f64_gt v w" unfolding f64_gt_def using f64_lt_trans by blast
      with True el show ?thesis by (auto simp: update_conv')
    next
      case False
      with s show ?thesis by (auto simp: update_conv')
    qed
  qed
  from d p2 p3 show ?thesis unfolding dedup_inv_def by blast
qed

lemma dedup_inv_no_update:
  assumes inv: "dedup_inv scan S m" and el: "eligible scan r w"
    and ex: "map_of m (Address r) = Some e" "eligible scan e ew" "\<not> f64_gt w ew"
  shows "dedup_inv scan (insert r S) m"
proof -
  have "\<exists>s ws. map_of m (Address x) = Some s \<and> eligible scan s ws \<and> \<not> f64_gt v ws"
    if x: "x \<in> insert r S" and v: "eligible scan x v" for x v
  proof (cases "x = r")
    case True
    with v el have "v = w" by (auto dest: eligible_fun)
    with True ex show ?thesis by auto
  next
    case False
    with x inv v show ?thesis unfolding dedup_inv_def by blast
  qed
  with inv show ?thesis unfolding dedup_inv_def by blast
qed

lemma dedup_step_inv:
  assumes inv: "dedup_inv scan S m" and safe: "winrate_of scan r = Inr v"
  shows "\<exists>m'. dedup_step scan r m = Inr m' \<and> dedup_inv scan (insert r S) m'"
proof (cases "\<exists>w. eligible scan r w")
  case False
  with safe have "dedup_step scan r m = Inr m" by (simp add: dedup_step_skip)
  with False inv show ?thesis by (simp add: dedup_inv_keep)
next
  case True
  then obtain w where w: "eligible scan r w" ..
  show ?thesis
  proof (cases "map_of m (Address r)")
    case None
    with w have "dedup_step scan r m = Inr (AList.update (Address r) r m)"
      by (rule dedup_step_new)
    moreover from inv w None have "dedup_inv scan (insert r S) (AList.update (Address r) r m)"
      by (intro dedup_inv_update) auto
    ultimately show ?thesis by simp
  next
    case (Some e)
    with inv obtain ew where ew: "eligible scan e ew" unfolding dedup_inv_def by blast
    from w Some ew have step: "dedup_step scan r m =
        Inr (if f64_gt w ew then AList.update (Address r) r m else m)"
      by (rule dedup_step_existing)
    show ?thesis
    proof (cases "f64_gt w ew")
      case True
      have "dedup_inv scan (insert r S) (AList.update (Address r) r m)"
      proof (rule dedup_inv_update[OF inv w], intro allI impI)
        fix e' ew' assume "map_of m (Address r) = Some e'" "eligible scan e' ew'"
        with Some ew have "ew' = ew" by (auto dest: eligible_fun)
        with True show "f64_gt w ew'" by simp
      qed
      with step True show ?thesis by simp
    next
      case False
      with inv w Some ew have "dedup_inv scan (insert r S) m"
        by (intro dedup_inv_no_update) auto
      with step False show ?thesis by simp
    qed
  qed
qed

lemma dedup_loop_inv:
  "dedup_inv scan S m \<Longrightarrow> \<forall>r \<in> set rs. \<exists>v. winrate_of scan r = Inr v \<Longrightarrow>
   \<exists>m'. dedup_loop scan rs m = Inr m' \<and> dedup_inv scan (S \<union> set rs) m'"
proof (induction rs arbitrary: S m)
  case Nil
  then show ?case by simp
next
  case (Cons r rs)
  from Cons.prems obtain v where v: "winrate_of scan r = Inr v" by auto
  from dedup_step_inv[OF Cons.prems(1) v] obtain m1 where
    m1: "dedup_step scan r m = Inr m1" "dedup_inv scan (insert r S) m1" by blast
  from Cons.IH[OF m1(2)] Cons.prems(2) obtain m' where
    "dedup_loop scan rs m1 = Inr m'" "dedup_inv scan (insert r S \<union> set rs) m'" by auto
  with m1 show ?case by simp
qed

lemma dedup_loop_panic_free:
  "dedup_loop scan rs m = Inr m' \<Longrightarrow> \<forall>r \<in> set rs. \<exists>v. winrate_of scan r = Inr v"
proof (induction rs arbitrary: m)
  case Nil
  then show ?case by simp
next
  case (Cons r rs)
  then show ?case
    by (cases "winrate_of scan r") (auto simp: dedup_step_panic split: sum.splits)
qed

lemma dedup_inv_empty: "dedup_inv scan {} []"
  by (simp add: dedup_inv_def)


lemma dedup_loop_panics:
  "dedup_inv scan S m \<Longrightarrow> \<exists>r \<in> set rs. \<not> Contains (Label r) ''winrate:'' \<Longrightarrow>
   dedup_loop scan rs m = Inl (IndexOutOfRange 1 1)"
proof (induction rs arbitrary: S m)
  case Nil
  then show ?case by simp
next
  case (Cons r rs)
  show ?case
  proof (cases "Contains (Label r) ''winrate:''")
    case False
    then show ?thesis by (simp add: winrate_of_panic dedup_step_panic)
  next
    case True
    then have "winrate_of scan r = Inr (scan (Split (Label r) ''winrate:'' ! 1))"
      by (rule winrate_of_safe)
    from dedup_step_inv[OF Cons.prems(1) this] obtain m1 where
      m1: "dedup_step scan r m = Inr m1" "dedup_inv scan (insert r S) m1" by blast
    from True Cons.prems(2) have "\<exists>r \<in> set rs. \<not> Contains (Label r) ''winrate:''" by auto
    from Cons.IH[OF m1(2) this] m1(1) show ?thesis by simp
  qed
qed

text \<open>
  Claim C9. \<open>deduplicateAndFilter\<close> takes element 1 of the split of each label on
  \<open>winrate:\<close> without a guard. When every label of the input contains \<open>winrate:\<close> every
  access is in range and the function returns; when some label lacks it (a record of an
  older \<open>ad.json\<close>, say) the function panics with index 1 out of range for length 1.
\<close>

theorem deduplicateAndFilter_index_safety:
  "if \<forall>r \<in> set results. Contains (Label r) ''winrate:''
   then \<exists>out. deduplicateAndFilter scan results = Inr out
   else deduplicateAndFilter scan results = Inl (IndexOutOfRange 1 1)"
proof (cases "\<forall>r \<in> set results. Contains (Label r) ''winrate:''")
  case True
  then have "\<forall>r \<in> set results. \<exists>v. winrate_of scan r = Inr v"
    by (auto simp: winrate_of_safe)
  from dedup_loop_inv[OF dedup_inv_empty this] True show ?thesis
    by (auto simp: deduplicateAndFilter_def)
next
  case False
  then have "\<exists>r \<in> set results. \<not> Contains (Label r) ''winrate:''" by simp
  from dedup_loop_panics[OF dedup_inv_empty this] False show ?thesis
    by (simp add: deduplicateAndFilter_def)
qed

lemmas scan_defs = Sscanf_f_def scan_token_def scan_decimal_def scan_exponent_def is_blank_def
      is_digit_def digit_of_def nan_word_def inf_word_def

theorem deduplicateAndFilter_index_safety_witness:
  "(\<exists>out. deduplicateAndFilter Sscanf_f
       [\<lparr>Address = ''A1'', Label = ''profit:20000.00,balance:1.50,winrate:0.800,name:x''\<rparr>] = Inr out) \<and>
   deduplicateAndFilter Sscanf_f
       [\<lparr>Address = ''A1'', Label = ''profit:20000.00,balance:1.50,winrate:0.800,name:x''\<rparr>,
        \<lparr>Address = ''A2'', Label = ''old label''\<rparr>] = Inl (IndexOutOfRange 1 1)"
  using deduplicateAndFilter_index_safety[of
      "[\<lparr>Address = ''A1'', Label = ''profit:20000.00,balance:1.50,winrate:0.800,name:x''\<rparr>]" Sscanf_f]
    deduplicateAndFilter_index_safety[of
      "[\<lparr>Address = ''A1'', Label = ''profit:20000.00,balance:1.50,winrate:0.800,name:x''\<rparr>,
        \<lparr>Address = ''A2'', Label = ''old label''\<rparr>]" Sscanf_f]
  by simp

section \<open>deduplicateAndFilter: what is kept\<close>

lemmas dedup_defs = deduplicateAndFilter_returns_def deduplicateAndFilter_def dedup_step_def
  winrate_of_def index_go_def Split_def f64_gt_def f64_ge_def

lemma dedup_inv_values:
  assumes "dedup_inv scan S m"
  shows "map Address (map snd m) = map fst m"
    and "set (map snd m) = {r. map_of m (Address r) = Some r}"
proof -
  from assms have d: "distinct (map fst m)" by (simp add: dedup_inv_def)
  have key: "Address r = a" if "(a, r) \<in> set m" for a r
    using assms that d unfolding dedup_inv_def by (metis map_of_eq_Some_iff)
  then show "map Address (map snd m) = map fst m" by auto
  show "set (map snd m) = {r. map_of m (Address r) = Some r}"
  proof (intro set_eqI iffI)
    fix r assume "r \<in> set (map snd m)"
    then obtain a where "(a, r) \<in> set m" by auto
    with key[OF this] d show "r \<in> {r. map_of m (Address r) = Some r}" by simp
  next
    fix r assume "r \<in> {r. map_of m (Address r) = Some r}"
    then have "(Address r, r) \<in> set m" by (auto dest: map_of_SomeD)
    then show "r \<in> set (map snd m)" by force
  qed
qed

lemma returns_inv:
  assumes "deduplicateAndFilter_returns scan results out"
  obtains m where "dedup_loop scan results [] = Inr m" "dedup_inv scan (set results) m"
    "mset out = mset (map snd m)"
proof -
  from assms obtain m where m: "dedup_loop scan results [] = Inr m" "mset out = mset (map snd m)"
    by (auto simp: deduplicateAndFilter_returns_def deduplicateAndFilter_def split: sum.splits)
  from dedup_loop_panic_free[OF m(1)] dedup_loop_inv[OF dedup_inv_empty, of results scan] m(1)
  have "dedup_inv scan (set results) m" by auto
  with m that show thesis by blast
qed

text \<open>
  What every possible output satisfies, NaN included: no two records share an address;
  every record is a record of the input that is eligible; every eligible record of the
  input has a record of its address in the output whose win-rate it does not exceed.
\<close>

lemma dedup_returns_best:
  assumes ret: "deduplicateAndFilter_returns scan results out"
  shows "distinct (map Address out) \<and>
    (\<forall>r \<in> set out. r \<in> set results \<and> (\<exists>w. eligible scan r w)) \<and>
    (\<forall>r \<in> set results. \<forall>w. eligible scan r w \<longrightarrow>
       (\<exists>s \<in> set out. \<exists>ws. Address s = Address r \<and> eligible scan s ws \<and> \<not> f64_gt w ws \<and>
          (w \<noteq> NaN \<and> ws \<noteq> NaN \<longrightarrow> f64_le w ws))) \<and>
    (\<forall>r \<in> set results. \<forall>w. winrate_of scan r = Inr (Some w) \<and> f64_le w (Fin 0.1) \<longrightarrow> r \<notin> set out) \<and>
    (\<forall>r \<in> set results. winrate_of scan r = Inr None \<longrightarrow> r \<notin> set out)"
proof -
  from ret obtain m where m: "dedup_loop scan results [] = Inr m"
    "dedup_inv scan (set results) m" "mset out = mset (map snd m)" by (rule returns_inv)
  from m(3) have so: "set out = set (map snd m)" by (rule mset_eq_setD)
  note vals = dedup_inv_values[OF m(2)]
  have "mset (map Address out) = mset (map fst m)"
    using m(3) vals(1) by (metis mset_map)
  moreover have "distinct (map fst m)" using m(2) by (simp add: dedup_inv_def)
  ultimately have c1: "distinct (map Address out)" by (metis mset_eq_imp_distinct_iff)
  have c2: "\<forall>r \<in> set out. r \<in> set results \<and> (\<exists>w. eligible scan r w)"
    using m(2) unfolding so vals(2) dedup_inv_def by blast
  have c3: "\<exists>s \<in> set out. \<exists>ws. Address s = Address r \<and> eligible scan s ws \<and> \<not> f64_gt w ws \<and>
          (w \<noteq> NaN \<and> ws \<noteq> NaN \<longrightarrow> f64_le w ws)"
    if r: "r \<in> set results" and w: "eligible scan r w" for r w
  proof -
    from m(2) r w obtain s ws where s: "map_of m (Address r) = Some s" "eligible scan s ws"
      "\<not> f64_gt w ws" unfolding dedup_inv_def by blast
    from m(2) s(1) have a: "Address s = Address r" unfolding dedup_inv_def by blast
    with s(1) have "s \<in> set out" unfolding so vals(2) by simp
    moreover from s(3) have "w \<noteq> NaN \<and> ws \<noteq> NaN \<longrightarrow> f64_le w ws"
      by (auto simp: f64_gt_def intro: f64_not_lt_le)
    ultimately show ?thesis using a s by blast
  qed
  have c4: "r \<notin> set out" if "winrate_of scan r = Inr (Some w) \<and> f64_le w (Fin 0.1)" for r w
    using c2 that by (auto simp: eligible_def)
  have c5: "r \<notin> set out" if "winrate_of scan r = Inr None" for r
    using c2 that by (auto simp: eligible_def)
  from c1 c2 c3 c4 c5 show ?thesis by blast
qed

lemma f64_not_le_gt: "w \<noteq> NaN \<Longrightarrow> (\<not> f64_le w (Fin c)) = f64_gt w (Fin c)"
  by (cases w) (auto simp: f64_gt_def)

lemma f64_le_below: "f64_le a (Fin c) \<Longrightarrow> f64_gt b (Fin c) \<Longrightarrow> f64_le a b"
  by (cases a; cases b) (auto simp: f64_gt_def)

lemma one_per_key:
  "distinct (map f xs) \<Longrightarrow> x \<in> set xs \<Longrightarrow> filter (\<lambda>s. f s = f x) xs = [x]"
proof (induction xs)
  case Nil
  then show ?case by simp
next
  case (Cons y ys)
  show ?case
  proof (cases "y = x")
    case True
    from Cons.prems(1) have "f y \<notin> f ` set ys" by simp
    with True have "\<forall>s \<in> set ys. f s \<noteq> f x" by (metis imageI)
    then have "filter (\<lambda>s. f s = f x) ys = []" by (simp add: filter_empty_conv)
    with True show ?thesis by simp
  next
    case False
    with Cons.prems have x: "x \<in> set ys" and "f y \<noteq> f x" by auto
    with Cons.IH Cons.prems(1) show ?thesis by simp
  qed
qed

lemma same_key_same_record:
  "distinct (map f xs) \<Longrightarrow> x \<in> set xs \<Longrightarrow> y \<in> set xs \<Longrightarrow> f x = f y \<Longrightarrow> x = y"
  by (auto simp: distinct_map dest: inj_onD)

text \<open>
  Claim C2, as the code has it. Let every label of the input hold \<open>winrate:\<close> and let no
  win-rate be read as NaN. Then \<open>deduplicateAndFilter\<close> returns, and whatever the order of
  its output: the output holds exactly one record for each address that has an entry with
  a parsed win-rate \<open>> 0.1\<close>; every record of the output is a record of the input with a
  win-rate \<open>> 0.1\<close> that is the maximum of the parsed win-rates of the entries of its
  address; and every record whose parsed win-rate is \<open><= 0.1\<close> is discarded.
\<close>

theorem deduplicateAndFilter_keeps_maximum:
  assumes labels: "\<forall>r \<in> set results. Contains (Label r) ''winrate:''"
    and numbers: "\<forall>r \<in> set results. winrate_of scan r \<noteq> Inr (Some NaN)"
  shows "(\<exists>out. deduplicateAndFilter_returns scan results out) \<and>
    (\<forall>out. deduplicateAndFilter_returns scan results out \<longrightarrow>
       (\<forall>r \<in> set results. \<forall>w. winrate_of scan r = Inr (Some w) \<and> f64_gt w (Fin 0.1) \<longrightarrow>
          length (filter (\<lambda>s. Address s = Address r) out) = 1) \<and>
       (\<forall>s \<in> set out. s \<in> set results \<and>
          (\<exists>ws. winrate_of scan s = Inr (Some ws) \<and> f64_gt ws (Fin 0.1) \<and>
             (\<forall>r \<in> set results. \<forall>w. Address r = Address s \<and> winrate_of scan r = Inr (Some w)
                \<longrightarrow> f64_le w ws))) \<and>
       (\<forall>r \<in> set results. \<forall>w. winrate_of scan r = Inr (Some w) \<and> f64_le w (Fin 0.1)
          \<longrightarrow> r \<notin> set out))"
proof (intro conjI allI impI)
  from labels have "\<forall>r \<in> set results. \<exists>v. winrate_of scan r = Inr v"
    by (auto simp: winrate_of_safe)
  from dedup_loop_inv[OF dedup_inv_empty this] obtain m where
    "dedup_loop scan results [] = Inr m" by blast
  then have "deduplicateAndFilter_returns scan results (map snd m)"
    by (simp add: deduplicateAndFilter_returns_def deduplicateAndFilter_def)
  then show "\<exists>out. deduplicateAndFilter_returns scan results out" ..
next
  fix out
  assume ret: "deduplicateAndFilter_returns scan results out"
  note best = dedup_returns_best[OF ret]
  from best have dist: "distinct (map Address out)" by blast
  from best have inp: "\<And>s. s \<in> set out \<Longrightarrow> s \<in> set results \<and> (\<exists>w. eligible scan s w)"
    by blast
  from best have cover: "\<And>r w. r \<in> set results \<Longrightarrow> eligible scan r w \<Longrightarrow>
      \<exists>s \<in> set out. \<exists>ws. Address s = Address r \<and> eligible scan s ws \<and>
        (w \<noteq> NaN \<and> ws \<noteq> NaN \<longrightarrow> f64_le w ws)"
    by blast
  have real: "w \<noteq> NaN" if "r \<in> set results" "winrate_of scan r = Inr (Some w)" for r w
    using numbers that by auto
  have elig: "eligible scan r w = f64_gt w (Fin 0.1)"
    if "r \<in> set results" "winrate_of scan r = Inr (Some w)" for r w
    using that real[OF that] by (simp add: eligible_def f64_not_le_gt)
  show "\<forall>r \<in> set results. \<forall>w. winrate_of scan r = Inr (Some w) \<and> f64_gt w (Fin 0.1) \<longrightarrow>
          length (filter (\<lambda>s. Address s = Address r) out) = 1"
  proof (intro ballI allI impI)
    fix r w assume r: "r \<in> set results" and w: "winrate_of scan r = Inr (Some w) \<and> f64_gt w (Fin 0.1)"
    with elig[of r w] have "eligible scan r w" by simp
    from cover[OF r this] obtain s where s: "s \<in> set out" "Address s = Address r" by blast
    from one_per_key[OF dist s(1)] s(2)
    show "length (filter (\<lambda>s. Address s = Address r) out) = 1" by simp
  qed
  show "\<forall>s \<in> set out. s \<in> set results \<and>
          (\<exists>ws. winrate_of scan s = Inr (Some ws) \<and> f64_gt ws (Fin 0.1) \<and>
             (\<forall>r \<in> set results. \<forall>w. Address r = Address s \<and> winrate_of scan r = Inr (Some w)
                \<longrightarrow> f64_le w ws))"
  proof (intro ballI)
    fix s assume s: "s \<in> set out"
    from inp[OF s] obtain ws where sr: "s \<in> set results" and es: "eligible scan s ws" by blast
    from es have ps: "winrate_of scan s = Inr (Some ws)" by (simp add: eligible_def)
    from es elig[OF sr ps] have gs: "f64_gt ws (Fin 0.1)" by simp
    have "f64_le w ws"
      if r: "r \<in> set results" and a: "Address r = Address s" and p: "winrate_of scan r = Inr (Some w)"
      for r w
    proof (cases "eligible scan r w")
      case True
      from cover[OF r True] obtain s' ws' where s': "s' \<in> set out" "Address s' = Address r"
        "eligible scan s' ws'" "w \<noteq> NaN \<and> ws' \<noteq> NaN \<longrightarrow> f64_le w ws'" by blast
      from same_key_same_record[OF dist s'(1) s] s'(2) a have "s' = s" by simp
      with s'(3) es have w': "ws' = ws" by (auto dest: eligible_fun)
      from real[OF r p] real[OF sr ps] s'(4) w' show ?thesis by simp
    next
      case False
      with p have "f64_le w (Fin 0.1)" by (simp add: eligible_def)
      from f64_le_below[OF this gs] show ?thesis .
    qed
    with sr ps gs show "s \<in> set results \<and>
          (\<exists>ws. winrate_of scan s = Inr (Some ws) \<and> f64_gt ws (Fin 0.1) \<and>
             (\<forall>r \<in> set results. \<forall>w. Address r = Address s \<and> winrate_of scan r = Inr (Some w)
                \<longrightarrow> f64_le w ws))"
      by blast
  qed
  from best show "\<forall>r \<in> set results. \<forall>w. winrate_of scan r = Inr (Some w) \<and> f64_le w (Fin 0.1)
          \<longrightarrow> r \<notin> set out"
    by blast
qed

theorem deduplicateAndFilter_keeps_maximum_witness:
  "Contains (Label \<lparr>Address = ''A1'', Label = ''profit:20000.00,balance:1.50,winrate:0.800,name:x''\<rparr>) ''winrate:'' \<and>
   Contains (Label \<lparr>Address = ''A3'', Label = ''winrate:unknown''\<rparr>) ''winrate:'' \<and>
   winrate_of Sscanf_f \<lparr>Address = ''A1'', Label = ''profit:20000.00,balance:1.50,winrate:0.800,name:x''\<rparr> = Inr (Some (Fin 0.8)) \<and>
   winrate_of Sscanf_f \<lparr>Address = ''A1'', Label = ''profit:30000.00,balance:2.50,winrate:0.900,name:y''\<rparr> = Inr (Some (Fin 0.9)) \<and>
   winrate_of Sscanf_f \<lparr>Address = ''A2'', Label = ''profit:20000.00,balance:1.50,winrate:0.050,name:z''\<rparr> = Inr (Some (Fin 0.05)) \<and>
   winrate_of Sscanf_f \<lparr>Address = ''A3'', Label = ''winrate:unknown''\<rparr> = Inr None \<and>
   deduplicateAndFilter_returns Sscanf_f
     [\<lparr>Address = ''A1'', Label = ''profit:20000.00,balance:1.50,winrate:0.800,name:x''\<rparr>,
      \<lparr>Address = ''A1'', Label = ''profit:30000.00,balance:2.50,winrate:0.900,name:y''\<rparr>,
      \<lparr>Address = ''A2'', Label = ''profit:20000.00,balance:1.50,winrate:0.050,name:z''\<rparr>,
      \<lparr>Address = ''A3'', Label = ''winrate:unknown''\<rparr>]
     [\<lparr>Address = ''A1'', Label = ''profit:30000.00,balance:2.50,winrate:0.900,name:y''\<rparr>] \<and>
   length (filter (\<lambda>s. Address s = ''A1'')
     [\<lparr>Address = ''A1'', Label = ''profit:30000.00,balance:2.50,winrate:0.900,name:y''\<rparr>]) = 1 \<and>
   f64_le (Fin 0.8) (Fin 0.9)"
proof -
  let ?r1 = "\<lparr>Address = ''A1'', Label = ''profit:20000.00,balance:1.50,winrate:0.800,name:x''\<rparr>"
  let ?r2 = "\<lparr>Address = ''A1'', Label = ''profit:30000.00,balance:2.50,winrate:0.900,name:y''\<rparr>"
  let ?r3 = "\<lparr>Address = ''A2'', Label = ''profit:20000.00,balance:1.50,winrate:0.050,name:z''\<rparr>"
  let ?r4 = "\<lparr>Address = ''A3'', Label = ''winrate:unknown''\<rparr>"
  have w: "winrate_of Sscanf_f ?r1 = Inr (Some (Fin 0.8))"
    "winrate_of Sscanf_f ?r2 = Inr (Some (Fin 0.9))"
    "winrate_of Sscanf_f ?r3 = Inr (Some (Fin 0.05))"
    "winrate_of Sscanf_f ?r4 = Inr None"
    by (simp_all add: dedup_defs scan_defs)
  have labels: "\<forall>r \<in> set [?r1, ?r2, ?r3, ?r4]. Contains (Label r) ''winrate:''"
    by simp
  have numbers: "\<forall>r \<in> set [?r1, ?r2, ?r3, ?r4]. winrate_of Sscanf_f r \<noteq> Inr (Some NaN)"
    using w by simp
  have ret: "deduplicateAndFilter_returns Sscanf_f [?r1, ?r2, ?r3, ?r4] [?r2]"
    by (simp add: dedup_defs scan_defs)
  note kept = deduplicateAndFilter_keeps_maximum[OF labels numbers, THEN conjunct2, THEN spec, THEN mp, OF ret]
  have r1: "?r1 \<in> set [?r1, ?r2, ?r3, ?r4]" by simp
  have r2: "?r2 \<in> set [?r2]" by simp
  from kept[THEN conjunct1, rule_format, OF r1, of "Fin 0.8"] w(1)
  have one: "length (filter (\<lambda>s. Address s = ''A1'') [?r2]) = 1"
    by (simp add: f64_gt_def)
  from kept[THEN conjunct2, THEN conjunct1, THEN bspec, OF r2] obtain ws where
    ws: "winrate_of Sscanf_f ?r2 = Inr (Some ws)" and
    top: "\<forall>r \<in> set [?r1, ?r2, ?r3, ?r4]. \<forall>w. Address r = Address ?r2 \<and>
           winrate_of Sscanf_f r = Inr (Some w) \<longrightarrow> f64_le w ws"
    by blast
  from ws w(2) have "ws = Fin 0.9" by simp
  with top[rule_format, OF r1, of "Fin 0.8"] w(1) have le: "f64_le (Fin 0.8) (Fin 0.9)"
    by simp
  have c: "Contains (Label ?r1) ''winrate:''" "Contains (Label ?r4) ''winrate:''"
    using labels by simp_all
  from c w ret one le show ?thesis by blast
qed

text \<open>
  Claim C2 as stated fails where a win-rate is read as NaN. In the first input the address
  \<open>A1\<close> has the win-rates NaN and 0.900: the record with NaN is met first, is not
  \<open><= 0.1\<close> and is stored, and 0.900 is not greater than NaN, so the output is the record
  with NaN, whose win-rate is not the maximum (0.900 is not below or equal to it). In the
  second input the label of \<open>A2\<close> lacks \<open>winrate:\<close>: the function panics and \<open>A1\<close>, whose
  win-rate is 0.800, gets no record.
\<close>

theorem deduplicateAndFilter_maximum_counterexample:
  "deduplicateAndFilter Sscanf_f
     [\<lparr>Address = ''A1'', Label = ''profit:20000.00,balance:1.50,winrate:nan,name:x''\<rparr>,
      \<lparr>Address = ''A1'', Label = ''profit:30000.00,balance:2.50,winrate:0.900,name:y''\<rparr>] =
     Inr [\<lparr>Address = ''A1'', Label = ''profit:20000.00,balance:1.50,winrate:nan,name:x''\<rparr>] \<and>
   winrate_of Sscanf_f \<lparr>Address = ''A1'', Label = ''profit:20000.00,balance:1.50,winrate:nan,name:x''\<rparr> =
     Inr (Some NaN) \<and>
   winrate_of Sscanf_f \<lparr>Address = ''A1'', Label = ''profit:30000.00,balance:2.50,winrate:0.900,name:y''\<rparr> =
     Inr (Some (Fin 0.9)) \<and>
   f64_gt (Fin 0.9) (Fin 0.1) \<and>
   \<not> f64_le (Fin 0.9) NaN \<and>
   deduplicateAndFilter Sscanf_f
     [\<lparr>Address = ''A1'', Label = ''profit:20000.00,balance:1.50,winrate:0.800,name:x''\<rparr>,
      \<lparr>Address = ''A2'', Label = ''old label''\<rparr>] = Inl (IndexOutOfRange 1 1)"
  by (simp add: dedup_defs scan_defs)

section \<open>deduplicateAndFilter: ties\<close>

lemma dedup_loop_append:
  "dedup_loop scan (xs @ ys) m =
     (case dedup_loop scan xs m of Inl p \<Rightarrow> Inl p | Inr m' \<Rightarrow> dedup_loop scan ys m')"
  by (induction xs arbitrary: m) (auto split: sum.splits)

lemma dedup_step_result:
  "dedup_step scan r m = Inr m' \<Longrightarrow> m' = m \<or> m' = AList.update (Address r) r m"
  by (auto simp: dedup_step_def split: sum.splits option.splits if_splits)

lemma dedup_step_readable:
  "dedup_step scan r m = Inr m' \<Longrightarrow> \<exists>v. winrate_of scan r = Inr v"
  by (cases "winrate_of scan r") (auto simp: dedup_step_panic)

lemma dedup_step_other_key:
  "dedup_step scan r m = Inr m' \<Longrightarrow> Address r \<noteq> a \<Longrightarrow> map_of m' a = map_of m a"
  by (auto dest!: dedup_step_result simp: update_conv')

lemma dedup_step_not_better:
  assumes st: "map_of m a = Some r1" "eligible scan r1 w1"
    and r: "Address r = a" "\<forall>w. eligible scan r w \<longrightarrow> \<not> f64_gt w w1"
    and step: "dedup_step scan r m = Inr m'"
  shows "m' = m"
proof (cases "\<exists>w. eligible scan r w")
  case True
  then obtain w where w: "eligible scan r w" ..
  with st r have "dedup_step scan r m = Inr (if f64_gt w w1 then AList.update (Address r) r m else m)"
    by (intro dedup_step_existing) auto
  with r w step show ?thesis by simp
next
  case False
  from dedup_step_readable[OF step] obtain v where "winrate_of scan r = Inr v" ..
  with False step show ?thesis by (simp add: dedup_step_skip)
qed

lemma dedup_loop_stays:
  assumes "map_of m a = Some r1" "eligible scan r1 w1"
    and "\<forall>r \<in> set ys. Address r = a \<longrightarrow> (\<forall>w. eligible scan r w \<longrightarrow> \<not> f64_gt w w1)"
    and "dedup_loop scan ys m = Inr m'"
  shows "map_of m' a = Some r1"
  using assms
proof (induction ys arbitrary: m)
  case Nil
  then show ?case by simp
next
  case (Cons r ys)
  from Cons.prems(4) obtain m1 where m1: "dedup_step scan r m = Inr m1"
    "dedup_loop scan ys m1 = Inr m'" by (auto split: sum.splits)
  have "map_of m1 a = Some r1"
  proof (cases "Address r = a")
    case True
    with Cons.prems m1(1) have "m1 = m" by (intro dedup_step_not_better[of m a r1 scan w1 r]) auto
    with Cons.prems(1) show ?thesis by simp
  next
    case False
    with m1(1) Cons.prems(1) show ?thesis by (simp add: dedup_step_other_key)
  qed
  from Cons.IH[OF this Cons.prems(2) _ m1(2)] Cons.prems(3) show ?case by simp
qed

lemma dedup_step_first_best:
  assumes inv: "dedup_inv scan (set xs) m" and el: "eligible scan r1 w1"
    and before: "\<forall>r \<in> set xs. Address r = Address r1 \<longrightarrow> (\<forall>v. eligible scan r v \<longrightarrow> f64_lt v w1)"
  shows "dedup_step scan r1 m = Inr (AList.update (Address r1) r1 m)"
proof (cases "map_of m (Address r1)")
  case None
  with el show ?thesis by (rule dedup_step_new)
next
  case (Some e)
  with inv obtain ew where e: "Address e = Address r1" "e \<in> set xs" "eligible scan e ew"
    unfolding dedup_inv_def by blast
  with before have "f64_gt w1 ew" by (auto simp: f64_gt_def)
  with dedup_step_existing[OF el Some e(3)] show ?thesis by simp
qed

lemma first_maximum_kept:
  assumes ret: "deduplicateAndFilter_returns scan (xs @ r1 # ys) out"
    and el: "eligible scan r1 w1"
    and before: "\<forall>r \<in> set xs. Address r = Address r1 \<longrightarrow> (\<forall>v. eligible scan r v \<longrightarrow> f64_lt v w1)"
    and after: "\<forall>r \<in> set ys. Address r = Address r1 \<longrightarrow> (\<forall>v. eligible scan r v \<longrightarrow> \<not> f64_gt v w1)"
  shows "r1 \<in> set out" and "\<forall>r \<in> set out. Address r = Address r1 \<longrightarrow> r = r1"
proof -
  from ret obtain m where m: "dedup_loop scan (xs @ r1 # ys) [] = Inr m"
    "dedup_inv scan (set (xs @ r1 # ys)) m" "mset out = mset (map snd m)" by (rule returns_inv)
  from m(3) have so: "set out = set (map snd m)" by (rule mset_eq_setD)
  note vals = dedup_inv_values[OF m(2)]
  from m(1) obtain m0 where m0: "dedup_loop scan xs [] = Inr m0"
    "dedup_loop scan (r1 # ys) m0 = Inr m"
    by (auto simp: dedup_loop_append split: sum.splits)
  from dedup_loop_panic_free[OF m0(1)] dedup_loop_inv[OF dedup_inv_empty, of xs scan] m0(1)
  have inv0: "dedup_inv scan (set xs) m0" by auto
  from dedup_step_first_best[OF inv0 el before] m0(2)
  have rest: "dedup_loop scan ys (AList.update (Address r1) r1 m0) = Inr m" by simp
  have "map_of (AList.update (Address r1) r1 m0) (Address r1) = Some r1"
    by (simp add: update_conv')
  from dedup_loop_stays[OF this el after rest] have stored: "map_of m (Address r1) = Some r1" .
  then show "r1 \<in> set out" unfolding so vals(2) by simp
  from stored show "\<forall>r \<in> set out. Address r = Address r1 \<longrightarrow> r = r1"
    unfolding so vals(2) by auto
qed

text \<open>
  Claim C10. Let \<open>r1\<close> come before \<open>r2\<close> in the input, both for the same address and with
  the same win-rate \<open>w\<close>, not \<open><= 0.1\<close>, and let no other record of that address beat them
  (earlier ones are strictly below \<open>w\<close>, later ones not above). Then the record kept is
  \<open>r1\<close>, the one met first, and not \<open>r2\<close>; and \<open>r2\<close>, like any record, replaces a stored
  record only when its win-rate is strictly greater: otherwise the step leaves the map
  as it is.
\<close>

theorem equal_winrates_first_kept:
  assumes ret: "deduplicateAndFilter_returns scan (xs @ r1 # ys @ r2 # zs) out"
    and addr: "Address r2 = Address r1"
    and w1: "winrate_of scan r1 = Inr (Some w)" and w2: "winrate_of scan r2 = Inr (Some w)"
    and keep: "\<not> f64_le w (Fin 0.1)"
    and before: "\<forall>r \<in> set xs. Address r = Address r1 \<longrightarrow> (\<forall>v. eligible scan r v \<longrightarrow> f64_lt v w)"
    and after: "\<forall>r \<in> set (ys @ zs). Address r = Address r1 \<longrightarrow> (\<forall>v. eligible scan r v \<longrightarrow> \<not> f64_gt v w)"
  shows "r1 \<in> set out \<and> (r2 \<noteq> r1 \<longrightarrow> r2 \<notin> set out) \<and>
    (\<forall>m e ew. map_of m (Address r2) = Some e \<and> eligible scan e ew \<and> \<not> f64_gt w ew
        \<longrightarrow> dedup_step scan r2 m = Inr m)"
proof -
  from w1 keep have el1: "eligible scan r1 w" by (simp add: eligible_def)
  from w2 keep have el2: "eligible scan r2 w" by (simp add: eligible_def)
  have after': "\<forall>r \<in> set (ys @ r2 # zs). Address r = Address r1 \<longrightarrow>
      (\<forall>v. eligible scan r v \<longrightarrow> \<not> f64_gt v w)"
  proof (intro ballI impI allI)
    fix r v assume r: "r \<in> set (ys @ r2 # zs)" "Address r = Address r1" "eligible scan r v"
    show "\<not> f64_gt v w"
    proof (cases "r = r2")
      case True
      with r(3) el2 have "v = w" by (auto dest: eligible_fun)
      then show ?thesis by (simp add: f64_gt_def f64_lt_irrefl)
    next
      case False
      with r after show ?thesis by auto
    qed
  qed
  from first_maximum_kept[OF ret el1 before after'] addr
  have "r1 \<in> set out" "r2 \<noteq> r1 \<longrightarrow> r2 \<notin> set out" by auto
  moreover have "dedup_step scan r2 m = Inr m"
    if "map_of m (Address r2) = Some e \<and> eligible scan e ew \<and> \<not> f64_gt w ew" for m e ew
    using dedup_step_existing[OF el2, of m e ew] that by simp
  ultimately show ?thesis by blast
qed

theorem equal_winrates_first_kept_witness:
  "deduplicateAndFilter_returns Sscanf_f
     ([] @ \<lparr>Address = ''A1'', Label = ''profit:20000.00,balance:1.50,winrate:0.800,name:x''\<rparr> #
      [] @ \<lparr>Address = ''A1'', Label = ''profit:90000.00,balance:7.50,winrate:0.800,name:y''\<rparr> # [])
     [\<lparr>Address = ''A1'', Label = ''profit:20000.00,balance:1.50,winrate:0.800,name:x''\<rparr>] \<and>
   winrate_of Sscanf_f \<lparr>Address = ''A1'', Label = ''profit:20000.00,balance:1.50,winrate:0.800,name:x''\<rparr>
     = Inr (Some (Fin 0.8)) \<and>
   winrate_of Sscanf_f \<lparr>Address = ''A1'', Label = ''profit:90000.00,balance:7.50,winrate:0.800,name:y''\<rparr>
     = Inr (Some (Fin 0.8)) \<and>
   \<not> f64_le (Fin 0.8) (Fin 0.1) \<and>
   \<lparr>Address = ''A1'', Label = ''profit:20000.00,balance:1.50,winrate:0.800,name:x''\<rparr>
     \<in> set [\<lparr>Address = ''A1'', Label = ''profit:20000.00,balance:1.50,winrate:0.800,name:x''\<rparr>] \<and>
   \<lparr>Address = ''A1'', Label = ''profit:90000.00,balance:7.50,winrate:0.800,name:y''\<rparr>
     \<notin> set [\<lparr>Address = ''A1'', Label = ''profit:20000.00,balance:1.50,winrate:0.800,name:x''\<rparr>]"
proof -
  have ret: "deduplicateAndFilter_returns Sscanf_f
     ([] @ \<lparr>Address = ''A1'', Label = ''profit:20000.00,balance:1.50,winrate:0.800,name:x''\<rparr> #
      [] @ \<lparr>Address = ''A1'', Label = ''profit:90000.00,balance:7.50,winrate:0.800,name:y''\<rparr> # [])
     [\<lparr>Address = ''A1'', Label = ''profit:20000.00,balance:1.50,winrate:0.800,name:x''\<rparr>]"
    by (simp add: dedup_defs scan_defs)
  have w1: "winrate_of Sscanf_f \<lparr>Address = ''A1'', Label = ''profit:20000.00,balance:1.50,winrate:0.800,name:x''\<rparr>
     = Inr (Some (Fin 0.8))"
    by (simp add: dedup_defs scan_defs)
  have w2: "winrate_of Sscanf_f \<lparr>Address = ''A1'', Label = ''profit:90000.00,balance:7.50,winrate:0.800,name:y''\<rparr>
     = Inr (Some (Fin 0.8))"
    by (simp add: dedup_defs scan_defs)
  have keep: "\<not> f64_le (Fin 0.8) (Fin 0.1)" by simp
  from equal_winrates_first_kept[OF ret _ w1 w2 keep] ret w1 w2 keep show ?thesis
    by simp
qed

section \<open>FetchAndAnalyzeData and the loop over the addresses\<close>

text \<open>
  Claim C1. \<open>FetchAndAnalyzeData\<close> returns a record exactly when the page is fetched and
  unmarshalled and the three numbers read from it satisfy the rule of the specification:
  (total_profit \<open>>=\<close> 1,000,000 and sol_balance \<open>>=\<close> 20 and win_rate \<open>>=\<close> 0.1) or
  (total_profit \<open>>=\<close> 10,000 and win_rate \<open>>=\<close> 0.755). The decision is the function
  \<open>spec_qualifies\<close> of these three numbers and of nothing else.
\<close>

theorem FetchAndAnalyzeData_rule:
  "(\<exists>r. fst (FetchAndAnalyzeData e t address) = Inr (Some r)) =
   (\<exists>jsonContent addr.
      chromedp_Run e t (apiURL address) 30 = Inr jsonContent \<and>
      Unmarshal_AddrData e jsonContent = Inr addr \<and>
      spec_qualifies (number_of (Sscanf e) (TotalProfit addr))
                     (number_of (Sscanf e) (SolBalance addr))
                     (number_of (Sscanf e) (WinRate addr)))"
  by (auto simp: FetchAndAnalyzeData_def spec_qualifies_def Let_def split: sum.splits)

lemma process_address_world:
  "process_address e item (v, r, w) = (v', r', w') \<Longrightarrow>
   tick w' = Suc (tick w) \<and> fs w' = fs w \<and>
   filter is_timing (trace w') =
     filter is_timing (trace w) @ [Navigate (apiURL (AddressItem.Address item)) 30, Sleep 2]"
  by (auto simp: process_address_def FetchAndAnalyzeData_def emit_def next_tick_def Let_def
      split: sum.splits option.splits prod.splits if_splits)

lemma process_address_valid:
  "process_address e item (v, r, w) = (v', r', w') \<Longrightarrow>
   v' = v @ (if fetch_qualifies e (tick w) (AddressItem.Address item) then [item] else [])"
  by (auto simp: process_address_def fetch_qualifies_def Let_def
      split: sum.splits option.splits prod.splits)

lemma process_addresses_world:
  "process_addresses e items (v, r, w) = (v', r', w') \<Longrightarrow>
   tick w' = tick w + length items \<and> fs w' = fs w \<and>
   v' = v @ qualified_items e (tick w) items \<and>
   filter is_timing (trace w') =
     filter is_timing (trace w) @
     concat (map (\<lambda>item. [Navigate (apiURL (AddressItem.Address item)) 30, Sleep 2]) items)"
proof (induction items arbitrary: v r w)
  case Nil
  then show ?case by simp
next
  case (Cons item items)
  obtain v1 r1 w1 where st: "process_address e item (v, r, w) = (v1, r1, w1)"
    by (cases "process_address e item (v, r, w)") auto
  with Cons.prems have rest: "process_addresses e items (v1, r1, w1) = (v', r', w')" by simp
  from process_address_world[OF st] process_address_valid[OF st] Cons.IH[OF rest]
  show ?case by auto
qed

section \<open>The effects of the loop over the files\<close>

lemma emit_simps [simp]:
  "fs (emit ev w) = fs w" "tick (emit ev w) = tick w" "trace (emit ev w) = trace w @ [ev]"
  by (simp_all add: emit_def)

lemma next_tick_simps [simp]:
  "fs (next_tick w) = fs w" "tick (next_tick w) = Suc (tick w)" "trace (next_tick w) = trace w"
  by (simp_all add: next_tick_def)

lemma ReadFile_world:
  "ReadFile e path w = (res, w1) \<Longrightarrow> fs w1 = fs w \<and> tick w1 = Suc (tick w) \<and> trace w1 = trace w"
  by (auto simp: ReadFile_def split: option.splits)

lemma WriteFile_world:
  "WriteFile e path content w = (res, w1) \<Longrightarrow>
   tick w1 = Suc (tick w) \<and> trace w1 = trace w \<and>
   (res = None \<longrightarrow> fs w1 = (fs w)(path \<mapsto> content)) \<and>
   (res \<noteq> None \<longrightarrow> fs w1 = fs w) \<and>
   (res = None) = (io_error e (tick w) (OpWrite path content) = None)"
  by (auto simp: WriteFile_def split: option.splits)

lemma Remove_world:
  "Remove e path w = (res, w1) \<Longrightarrow>
   tick w1 = Suc (tick w) \<and> trace w1 = trace w \<and>
   (io_error e (tick w) (OpRemove path) = None \<longrightarrow> fs w1 = (fs w)(path := None)) \<and>
   (\<forall>p. p \<noteq> path \<longrightarrow> fs w1 p = fs w p)"
  by (auto simp: Remove_def split: option.splits)

lemma readAddressesFromFile_world:
  "readAddressesFromFile e path w = (res, w1) \<Longrightarrow>
   fs w1 = fs w \<and> tick w1 = Suc (tick w) \<and> trace w1 = trace w"
  by (auto simp: readAddressesFromFile_def split: prod.splits sum.splits if_splits
      dest!: ReadFile_world)

lemma update_file_timing:
  "update_file e name path valid w = (go, w1) \<Longrightarrow>
   filter is_timing (trace w1) = filter is_timing (trace w)"
  by (auto simp: update_file_def split: if_splits sum.splits prod.splits option.splits
      dest!: WriteFile_world Remove_world)

lemma save_results_timing:
  "save_results e rs (allResults, w) = (allResults', w1) \<Longrightarrow>
   filter is_timing (trace w1) = filter is_timing (trace w)"
  by (auto simp: save_results_def split: if_splits sum.splits prod.splits option.splits
      dest!: WriteFile_world)

lemma save_results_fs:
  "save_results e rs (allResults, w) = (allResults', w1) \<Longrightarrow> p \<noteq> ''ad.json'' \<Longrightarrow>
   fs w1 p = fs w p"
  by (auto simp: save_results_def split: if_splits sum.splits prod.splits option.splits
      dest!: WriteFile_world)

lemma process_file_timing:
  "process_file e file (allResults, w) = (allResults', w') \<Longrightarrow>
   \<exists>addresses. filter is_timing (trace w') =
     filter is_timing (trace w) @
     concat (map (\<lambda>a. [Navigate (apiURL a) 30, Sleep 2]) addresses)"
proof (cases "\<not> IsDir file \<and> (Ext (Name file) = ''.json'' \<or> Ext (Name file) = ''.txt'')")
  case False
  assume "process_file e file (allResults, w) = (allResults', w')"
  with False have "w' = w" by (auto simp: process_file_def)
  then have "filter is_timing (trace w') =
     filter is_timing (trace w) @ concat (map (\<lambda>a. [Navigate (apiURL a) 30, Sleep 2]) [])"
    by simp
  then show ?thesis by blast
next
  case True
  assume run: "process_file e file (allResults, w) = (allResults', w')"
  obtain res w1 where rd: "readAddressesFromFile e (''ad_json/'' @ Name file) w = (res, w1)"
    by (cases "readAddressesFromFile e (''ad_json/'' @ Name file) w") auto
  note w1 = readAddressesFromFile_world[OF rd]
  show ?thesis
  proof (cases res)
    case (Inl err)
    with run True rd have "w' = emit (Log (FileFailed (Name file) err)) w1"
      by (auto simp: process_file_def)
    with w1 have "filter is_timing (trace w') =
       filter is_timing (trace w) @ concat (map (\<lambda>a. [Navigate (apiURL a) 30, Sleep 2]) [])"
      by simp
    then show ?thesis by blast
  next
    case (Inr addresses)
    obtain valid results w2 where pa: "process_addresses e addresses ([], [], w1) = (valid, results, w2)"
      by (cases "process_addresses e addresses ([], [], w1)") auto
    obtain go w3 where uf: "update_file e (Name file) (''ad_json/'' @ Name file) valid w2 = (go, w3)"
      by (cases "update_file e (Name file) (''ad_json/'' @ Name file) valid w2") auto
    from run True rd Inr pa uf have fin: "(if go then save_results e results (allResults, w3)
        else (allResults, w3)) = (allResults', w')"
      by (auto simp: process_file_def split: bool.splits)
    have "filter is_timing (trace w') = filter is_timing (trace w3)"
      using fin by (auto split: if_splits dest: save_results_timing)
    also have "\<dots> = filter is_timing (trace w2)" using uf by (rule update_file_timing)
    also have "\<dots> = filter is_timing (trace w1) @
        concat (map (\<lambda>item. [Navigate (apiURL (AddressItem.Address item)) 30, Sleep 2]) addresses)"
      using process_addresses_world[OF pa] by simp
    also have "\<dots> = filter is_timing (trace w) @
        concat (map (\<lambda>a. [Navigate (apiURL a) 30, Sleep 2]) (map AddressItem.Address addresses))"
      using w1 by (simp add: comp_def)
    finally show ?thesis by blast
  qed
qed

lemma process_files_timing:
  "process_files e files (allResults, w) = (allResults', w') \<Longrightarrow>
   \<exists>addresses. filter is_timing (trace w') =
     filter is_timing (trace w) @
     concat (map (\<lambda>a. [Navigate (apiURL a) 30, Sleep 2]) addresses)"
proof (induction files arbitrary: allResults w)
  case Nil
  then have "filter is_timing (trace w') =
     filter is_timing (trace w) @ concat (map (\<lambda>a. [Navigate (apiURL a) 30, Sleep 2]) [])"
    by simp
  then show ?case by blast
next
  case (Cons entry files)
  obtain all1 w1 where pf: "process_file e entry (allResults, w) = (all1, w1)"
    by (cases "process_file e entry (allResults, w)") auto
  from process_file_timing[OF pf] obtain as1 where as1: "filter is_timing (trace w1) =
     filter is_timing (trace w) @ concat (map (\<lambda>a. [Navigate (apiURL a) 30, Sleep 2]) as1)"
    by blast
  from Cons.prems pf have "process_files e files (all1, w1) = (allResults', w')" by simp
  from Cons.IH[OF this] obtain as2 where as2: "filter is_timing (trace w') =
     filter is_timing (trace w1) @ concat (map (\<lambda>a. [Navigate (apiURL a) 30, Sleep 2]) as2)"
    by blast
  from as1 as2 have "filter is_timing (trace w') =
     filter is_timing (trace w) @ concat (map (\<lambda>a. [Navigate (apiURL a) 30, Sleep 2]) (as1 @ as2))"
    by simp
  then show ?case by blast
qed

text \<open>
  Claim C7. The addresses of a file are handled one after the other: among the events
  that take time, each address gives one browser session with a timeout of 30 seconds
  followed by one sleep of 2 seconds, whatever the session returns, and nothing else
  comes between them; the same holds for the whole loop over the files.
\<close>

theorem scraping_is_sequential:
  "filter is_timing (trace (snd (snd (process_addresses e items (v, r, w))))) =
     filter is_timing (trace w) @
     concat (map (\<lambda>item. [Navigate (apiURL (AddressItem.Address item)) 30, Sleep 2]) items) \<and>
   (\<exists>addresses. filter is_timing (trace (snd (process_files e files (allResults, w)))) =
     filter is_timing (trace w) @
     concat (map (\<lambda>a. [Navigate (apiURL a) 30, Sleep 2]) addresses))"
proof
  obtain v' r' w' where pa: "process_addresses e items (v, r, w) = (v', r', w')"
    by (cases "process_addresses e items (v, r, w)") auto
  from process_addresses_world[OF pa] pa
  show "filter is_timing (trace (snd (snd (process_addresses e items (v, r, w))))) =
     filter is_timing (trace w) @
     concat (map (\<lambda>item. [Navigate (apiURL (AddressItem.Address item)) 30, Sleep 2]) items)"
    by simp
next
  obtain all' w' where pf: "process_files e files (allResults, w) = (all', w')"
    by (cases "process_files e files (allResults, w)") auto
  from process_files_timing[OF pf] pf
  show "\<exists>addresses. filter is_timing (trace (snd (process_files e files (allResults, w)))) =
     filter is_timing (trace w) @
     concat (map (\<lambda>a. [Navigate (apiURL a) 30, Sleep 2]) addresses)"
    by simp
qed

section \<open>Program A: the first element of the response\<close>

lemmas scenario_defs = demo_env_def demo_world_def good_page_def poor_page_def list_json_def
  poor_json_def list_txt_def wallet_body_def indent_records_def record_text_def

lemmas program_defs = process_file_def readAddressesFromFile_def ReadFile_def WriteFile_def
  Remove_def process_address_def FetchAndAnalyzeData_def update_file_def save_results_def
  read_txt_def txt_content_def Ext_def number_of_def apiURL_def walletURL_def emit_def
  next_tick_def fetchWalletData_def process_channel_def Get_Address_main_def index_go_def
  f64_ge_def fetch_qualifies_def labelled_outputs_def Let_def

lemma collect_outputs_labelled:
  "collect_outputs entries outputs = outputs @ labelled_outputs entries"
  by (induction entries arbitrary: outputs) (auto simp: labelled_outputs_def split: list.splits)

lemma fetchWalletData_world:
  "fetchWalletData e c w = (res, w1) \<Longrightarrow>
   fs w1 = fs w \<and> tick w1 = Suc (tick w) \<and> trace w1 = trace w @ [HttpGet (walletURL c)]"
  by (auto simp: fetchWalletData_def Let_def split: http_outcome.splits sum.splits)

text \<open>
  Claim C8. After a successful fetch the loop of \<open>main\<close> takes \<open>data[0]\<close> without a guard.
  When the list is not empty the access is in range and the iteration ends without
  panic. When the list is empty the access panics with index 0 out of range for length
  0: the run ends there, with the world as the fetch left it and no file written,
  whatever channel identifiers follow, so this channel is not skipped as a failed
  fetch is.
\<close>

theorem first_element_unguarded:
  assumes "fetchWalletData e channelID (emit (Print (Processing channelID)) w) = (Inr data, w1)"
  shows "(data \<noteq> [] \<longrightarrow> fst (process_channel e channelID w) = None) \<and>
         (data = [] \<longrightarrow>
            run_channels e (channelID # channelIDs) w = (Some (IndexOutOfRange 0 0), w1) \<and>
            fs w1 = fs w)"
proof (intro conjI impI)
  assume "data \<noteq> []"
  then obtain first others where "data = first # others" by (cases data) auto
  with assms show "fst (process_channel e channelID w) = None"
    by (auto simp: process_channel_def index_go_def split: sum.splits prod.splits option.splits)
next
  assume "data = []"
  with assms have "process_channel e channelID w = (Some (IndexOutOfRange 0 0), w1)"
    by (simp add: process_channel_def index_go_def)
  then show "run_channels e (channelID # channelIDs) w = (Some (IndexOutOfRange 0 0), w1)"
    by simp
next
  from fetchWalletData_world[OF assms] show "fs w1 = fs w" by simp
qed

lemma process_channel_written:
  assumes "fetchWalletData e channelID (emit (Print (Processing channelID)) w) = (Inr (first # others), w1)"
    and "MarshalIndent_outputs e (labelled_outputs (Json first)) = Inr jsonData"
    and "io_error e (tick w1) (OpWrite (channelID @ ''.json'') jsonData) = None"
  shows "\<exists>w'. process_channel e channelID w = (None, w') \<and>
           fs w' = (fs w)(channelID @ ''.json'' \<mapsto> jsonData)"
proof -
  from fetchWalletData_world[OF assms(1)] have "fs w1 = fs w" by simp
  with assms show ?thesis
    by (auto simp: process_channel_def index_go_def collect_outputs_labelled WriteFile_def next_tick_def)
qed

theorem first_element_unguarded_witness:
  "fst (fetchWalletData demo_env ''c1'' (emit (Print (Processing ''c1'')) demo_world)) = Inr [] \<and>
   fst (run_channels demo_env [''c1'', ''c2''] demo_world) = Some (IndexOutOfRange 0 0) \<and>
   fs (snd (run_channels demo_env [''c1'', ''c2''] demo_world)) = fs demo_world \<and>
   fst (fetchWalletData demo_env ''c2'' (emit (Print (Processing ''c2'')) demo_world)) =
     Inr [\<lparr>Json = [\<lparr>WalletEntry.Address = ''W1'', Labels = [''smart'', ''early'']\<rparr>,
                     \<lparr>WalletEntry.Address = ''W2'', Labels = []\<rparr>]\<rparr>] \<and>
   fst (process_channel demo_env ''c2'' demo_world) = None"
proof -
  define W1 where "W1 = snd (fetchWalletData demo_env ''c1'' (emit (Print (Processing ''c1'')) demo_world))"
  define W2 where "W2 = snd (fetchWalletData demo_env ''c2'' (emit (Print (Processing ''c2'')) demo_world))"
  have c1: "fetchWalletData demo_env ''c1'' (emit (Print (Processing ''c1'')) demo_world) = (Inr [], W1)"
    unfolding W1_def by (simp add: program_defs scenario_defs)
  have c2: "fetchWalletData demo_env ''c2'' (emit (Print (Processing ''c2'')) demo_world) =
      (Inr [\<lparr>Json = [\<lparr>WalletEntry.Address = ''W1'', Labels = [''smart'', ''early'']\<rparr>,
                      \<lparr>WalletEntry.Address = ''W2'', Labels = []\<rparr>]\<rparr>], W2)"
    unfolding W2_def by (simp add: program_defs scenario_defs)
  from first_element_unguarded[OF c1, of "[''c2'']"]
  have stop: "run_channels demo_env [''c1'', ''c2''] demo_world = (Some (IndexOutOfRange 0 0), W1)"
    and same: "fs W1 = fs demo_world" by simp_all
  from first_element_unguarded[OF c2]
  have go: "fst (process_channel demo_env ''c2'' demo_world) = None" by simp
  show ?thesis unfolding c1 c2 stop using same go by simp
qed

text \<open>
  Claim C6 at the response \<open>[]\<close>. With the arguments \<open>c1\<close> and \<open>c2\<close>, where the response
  for \<open>c1\<close> is the empty list, the run ends with a panic at \<open>c1\<close> and the file of \<open>c2\<close> is
  never written; run on \<open>c2\<close> alone, the program writes the record of the one entry that
  has a label, with its first label.
\<close>

theorem empty_response_stops_the_run:
  "fst (Get_Address_main demo_env [''Get_Address'', ''c1'', ''c2''] demo_world) =
     Some (IndexOutOfRange 0 0) \<and>
   fs (snd (Get_Address_main demo_env [''Get_Address'', ''c1'', ''c2''] demo_world)) ''c2.json'' = None \<and>
   fs (snd (Get_Address_main demo_env [''Get_Address'', ''c2''] demo_world)) ''c2.json'' =
     Some (indent_records [(''W1'', ''smart'')])"
  by (simp add: program_defs scenario_defs)

section \<open>Failures of single items\<close>



section \<open>The files after the loop\<close>

lemma ad_json_path: "''ad_json/'' @ name \<noteq> ''ad.json''"
  by simp

lemma update_file_fs:
  assumes "update_file e name path valid w = (go, w1)"
  shows "(valid \<noteq> [] \<and> Ext name = ''.json'' \<longrightarrow>
           (\<forall>content. MarshalIndent_items e valid = Inr content \<and>
              io_error e (tick w) (OpWrite path content) = None \<longrightarrow>
              go \<and> fs w1 path = Some content)) \<and>
         (valid \<noteq> [] \<and> Ext name \<noteq> ''.json'' \<and>
            io_error e (tick w) (OpWrite path (txt_content valid)) = None \<longrightarrow>
            go \<and> fs w1 path = Some (txt_content valid)) \<and>
         (valid = [] \<and> io_error e (tick w) (OpRemove path) = None \<longrightarrow>
            go \<and> fs w1 path = None)"
  using assms
  by (auto simp: update_file_def WriteFile_def Remove_def
      split: if_splits sum.splits option.splits prod.splits)

text \<open>
  Claim C4. Take a file the loop handles: a regular file with the extension \<open>.json\<close> or
  \<open>.txt\<close> that is read and parsed, and let \<open>valid\<close> be those of its records whose address
  qualified when it was looked up, in their order and with their labels. If \<open>valid\<close> is not
  empty, the file holds after the iteration exactly \<open>valid\<close>, in the format of the file
  (the JSON text of \<open>valid\<close>, or the header and one line for each record); if \<open>valid\<close> is
  empty the file is gone. Each holds when the environment does not refuse the write or
  the removal (a refused one is logged, see C3).
\<close>

theorem file_rewritten_or_deleted:
  assumes entry: "\<not> IsDir entry" "Ext (Name entry) = ''.json'' \<or> Ext (Name entry) = ''.txt''"
    and rd: "readAddressesFromFile e (''ad_json/'' @ Name entry) w = (Inr addresses, w1)"
    and run: "process_file e entry (allResults, w) = (allResults', w')"
    and valid: "valid = qualified_items e (tick w1) addresses"
  shows "(valid \<noteq> [] \<and> Ext (Name entry) = ''.json'' \<longrightarrow>
           (\<forall>content. MarshalIndent_items e valid = Inr content \<and>
              io_error e (tick w1 + length addresses) (OpWrite (''ad_json/'' @ Name entry) content) = None
              \<longrightarrow> fs w' (''ad_json/'' @ Name entry) = Some content)) \<and>
         (valid \<noteq> [] \<and> Ext (Name entry) = ''.txt'' \<and>
            io_error e (tick w1 + length addresses)
              (OpWrite (''ad_json/'' @ Name entry) (txt_content valid)) = None
            \<longrightarrow> fs w' (''ad_json/'' @ Name entry) = Some (txt_content valid)) \<and>
         (valid = [] \<and>
            io_error e (tick w1 + length addresses) (OpRemove (''ad_json/'' @ Name entry)) = None
            \<longrightarrow> fs w' (''ad_json/'' @ Name entry) = None)"
proof -
  let ?path = "''ad_json/'' @ Name entry"
  obtain v results w2 where pa: "process_addresses e addresses ([], [], w1) = (v, results, w2)"
    by (cases "process_addresses e addresses ([], [], w1)") auto
  from process_addresses_world[OF pa] valid
  have v: "v = valid" and t2: "tick w2 = tick w1 + length addresses" by simp_all
  obtain go w3 where uf: "update_file e (Name entry) ?path valid w2 = (go, w3)"
    by (cases "update_file e (Name entry) ?path valid w2") auto
  from run entry rd pa uf v have fin: "(if go then save_results e results (allResults, w3)
      else (allResults, w3)) = (allResults', w')"
    by (auto simp: process_file_def split: bool.splits)
  have keep: "go \<Longrightarrow> fs w' ?path = fs w3 ?path"
    using fin save_results_fs[of e results allResults w3 allResults' w' ?path] by simp
  from entry(2) have not_json: "Ext (Name entry) = ''.txt'' \<Longrightarrow> Ext (Name entry) \<noteq> ''.json''"
    by auto
  from update_file_fs[OF uf] t2 keep not_json show ?thesis by auto
qed

theorem file_rewritten_or_deleted_witness:
  "fs demo_world ''ad_json/list.json'' = Some list_json \<and>
   qualified_items demo_env 1
     [\<lparr>AddressItem.Address = ''GOOD'', AddressItem.Label = ''whale''\<rparr>,
      \<lparr>AddressItem.Address = ''POOR'', AddressItem.Label = ''fish''\<rparr>,
      \<lparr>AddressItem.Address = ''DOWN'', AddressItem.Label = ''ghost''\<rparr>] =
     [\<lparr>AddressItem.Address = ''GOOD'', AddressItem.Label = ''whale''\<rparr>] \<and>
   fs (snd (process_file demo_env \<lparr>Name = ''list.json'', IsDir = False\<rparr> ([], demo_world)))
      ''ad_json/list.json'' = Some (indent_records [(''GOOD'', ''whale'')]) \<and>
   fs (snd (process_file demo_env \<lparr>Name = ''list.txt'', IsDir = False\<rparr> ([], demo_world)))
      ''ad_json/list.txt'' = Some (''address  label'' @ [CHR 0x0A] @ ''GOOD  big whale'' @ [CHR 0x0A]) \<and>
   fs demo_world ''ad_json/poor.json'' = Some poor_json \<and>
   fs (snd (process_file demo_env \<lparr>Name = ''poor.json'', IsDir = False\<rparr> ([], demo_world)))
      ''ad_json/poor.json'' = None"
proof -
  let ?good = "\<lparr>AddressItem.Address = ''GOOD'', AddressItem.Label = ''whale''\<rparr>"
  let ?poor = "\<lparr>AddressItem.Address = ''POOR'', AddressItem.Label = ''fish''\<rparr>"
  let ?down = "\<lparr>AddressItem.Address = ''DOWN'', AddressItem.Label = ''ghost''\<rparr>"
  let ?whale = "\<lparr>AddressItem.Address = ''GOOD'', AddressItem.Label = ''big whale''\<rparr>"
  let ?E1 = "\<lparr>Name = ''list.json'', IsDir = False\<rparr>"
  let ?E2 = "\<lparr>Name = ''list.txt'', IsDir = False\<rparr>"
  let ?E3 = "\<lparr>Name = ''poor.json'', IsDir = False\<rparr>"
  define R1 where "R1 = snd (readAddressesFromFile demo_env ''ad_json/list.json'' demo_world)"
  define R2 where "R2 = snd (readAddressesFromFile demo_env ''ad_json/list.txt'' demo_world)"
  define R3 where "R3 = snd (readAddressesFromFile demo_env ''ad_json/poor.json'' demo_world)"
  have t: "tick R1 = 1" "tick R2 = 1" "tick R3 = 1"
    unfolding R1_def R2_def R3_def by (simp_all add: program_defs scenario_defs)
  have e1: "\<not> IsDir ?E1" "Ext (Name ?E1) = ''.json'' \<or> Ext (Name ?E1) = ''.txt''"
    and e2: "\<not> IsDir ?E2" "Ext (Name ?E2) = ''.json'' \<or> Ext (Name ?E2) = ''.txt''"
    and e3: "\<not> IsDir ?E3" "Ext (Name ?E3) = ''.json'' \<or> Ext (Name ?E3) = ''.txt''"
    by (simp_all add: Ext_def)
  have rd1: "readAddressesFromFile demo_env (''ad_json/'' @ Name ?E1) demo_world =
      (Inr [?good, ?poor, ?down], R1)"
    unfolding R1_def by (simp add: program_defs scenario_defs)
  have rd2: "readAddressesFromFile demo_env (''ad_json/'' @ Name ?E2) demo_world =
      (Inr [?whale, ?poor], R2)"
    unfolding R2_def by (simp add: program_defs scenario_defs)
  have rd3: "readAddressesFromFile demo_env (''ad_json/'' @ Name ?E3) demo_world =
      (Inr [?poor], R3)"
    unfolding R3_def by (simp add: program_defs scenario_defs)
  have q1: "[?good] = qualified_items demo_env (tick R1) [?good, ?poor, ?down]"
    and q2: "[?whale] = qualified_items demo_env (tick R2) [?whale, ?poor]"
    and q3: "[] = qualified_items demo_env (tick R3) [?poor]"
    unfolding t by (simp_all add: program_defs scenario_defs scan_defs)
  have run1: "process_file demo_env ?E1 ([], demo_world) =
      (fst (process_file demo_env ?E1 ([], demo_world)), snd (process_file demo_env ?E1 ([], demo_world)))"
    and run2: "process_file demo_env ?E2 ([], demo_world) =
      (fst (process_file demo_env ?E2 ([], demo_world)), snd (process_file demo_env ?E2 ([], demo_world)))"
    and run3: "process_file demo_env ?E3 ([], demo_world) =
      (fst (process_file demo_env ?E3 ([], demo_world)), snd (process_file demo_env ?E3 ([], demo_world)))"
    by simp_all
  have io: "io_error demo_env n (OpWrite (''ad_json/'' @ Name ?E1) c) = None"
    "io_error demo_env n (OpWrite (''ad_json/'' @ Name ?E2) c) = None"
    "io_error demo_env n (OpRemove p) = None" for n c p
    by (simp_all add: demo_env_def)
  have m1: "MarshalIndent_items demo_env [?good] = Inr (indent_records [(''GOOD'', ''whale'')])"
    by (simp add: demo_env_def)
  from file_rewritten_or_deleted[OF e1 rd1 run1 q1] m1 io(1)
  have f1: "fs (snd (process_file demo_env ?E1 ([], demo_world))) (''ad_json/'' @ Name ?E1) =
      Some (indent_records [(''GOOD'', ''whale'')])"
    by (simp add: Ext_def)
  from file_rewritten_or_deleted[OF e2 rd2 run2 q2] io(2)
  have f2: "fs (snd (process_file demo_env ?E2 ([], demo_world))) (''ad_json/'' @ Name ?E2) =
      Some (txt_content [?whale])"
    by (simp add: Ext_def)
  from file_rewritten_or_deleted[OF e3 rd3 run3 q3] io(3)
  have f3: "fs (snd (process_file demo_env ?E3 ([], demo_world))) (''ad_json/'' @ Name ?E3) = None"
    by simp
  have s: "fs demo_world ''ad_json/list.json'' = Some list_json"
    "fs demo_world ''ad_json/poor.json'' = Some poor_json"
    by (simp_all add: demo_world_def)
  from f1 f2 f3 q1 s show ?thesis
    unfolding t by (simp add: txt_content_def)
qed

section \<open>The JSON address list read back\<close>

lemma char_of_byte [simp]: "char_of (byte c) = c"
  by (simp add: byte_def)

lemma byte_less_256: "byte c < 256"
  by (simp add: byte_def)

lemma byte_char_of: "n < 256 \<Longrightarrow> byte (char_of n) = n"
  by (simp add: byte_def)

lemma hex_val_hex: "d < 16 \<Longrightarrow> hex_val (hex d) = Some d"
proof -
  assume "d < 16"
  then have "d = 0 \<or> d = 1 \<or> d = 2 \<or> d = 3 \<or> d = 4 \<or> d = 5 \<or> d = 6 \<or> d = 7 \<or>
      d = 8 \<or> d = 9 \<or> d = 10 \<or> d = 11 \<or> d = 12 \<or> d = 13 \<or> d = 14 \<or> d = 15"
    by presburger
  then show ?thesis
    by (auto simp: hex_def hex_val_def byte_def)
qed

lemma getu4_00:
  "n < 256 \<Longrightarrow>
   getu4 (CHR 0x5C # CHR ''u'' # CHR ''0'' # CHR ''0'' # hex (n div 16) # hex (n mod 16) # r) = Some n"
proof -
  assume n: "n < 256"
  then have "n div 16 < 16" "n mod 16 < 16" by auto
  then have "hex_val (hex (n div 16)) = Some (n div 16)" "hex_val (hex (n mod 16)) = Some (n mod 16)"
    by (auto intro: hex_val_hex)
  moreover have "hex_val CHR ''0'' = Some 0" by (simp add: hex_val_def byte_def)
  ultimately show ?thesis by (simp add: getu4_def)
qed

lemma unquote_quote [simp]: "unquote_body (CHR 0x22 # r) = Some ([], r)"
  by (subst unquote_body.simps) simp

lemma unquote_u:
  "getu4 (CHR 0x5C # CHR ''u'' # r) = Some rr \<Longrightarrow> \<not> (0xD800 \<le> rr \<and> rr < 0xDC00) \<Longrightarrow>
   unquote_body (CHR 0x5C # CHR ''u'' # r) =
   prepend (utf8_encode rr) (unquote_body (drop 4 r))"
  by (subst unquote_body.simps) auto

lemma unquote_plain:
  "c \<noteq> CHR 0x22 \<Longrightarrow> c \<noteq> CHR 0x5C \<Longrightarrow> 0x20 \<le> byte c \<Longrightarrow> byte c < 0x80 \<Longrightarrow>
   unquote_body (c # r) = prepend [c] (unquote_body r)"
  by (subst unquote_body.simps) simp

lemma high_byte_not_special: "0x80 \<le> byte c \<Longrightarrow> c \<noteq> CHR 0x22 \<and> c \<noteq> CHR 0x5C"
  by (auto simp: byte_def)

lemma unquote_multi:
  "0x80 \<le> byte c \<Longrightarrow> utf8_len (c # r) \<noteq> 0 \<Longrightarrow>
   unquote_body (c # r) =
   prepend (take (utf8_len (c # r)) (c # r)) (unquote_body (drop (utf8_len (c # r)) (c # r)))"
  using high_byte_not_special[of c] by (subst unquote_body.simps) simp

lemma unquote_escape_quote:
  "b = CHR 0x22 \<or> b = CHR 0x5C \<Longrightarrow>
   unquote_body (escape_byte b @ r) = prepend [b] (unquote_body r)"
  by (subst unquote_body.simps) (auto simp: escape_byte_def)

lemma unquote_escape_short:
  "b = CHR 0x08 \<or> b = CHR 0x0C \<or> b = CHR 0x0A \<or> b = CHR 0x0D \<or> b = CHR 0x09 \<Longrightarrow>
   unquote_body (escape_byte b @ r) = prepend [b] (unquote_body r)"
  by (subst unquote_body.simps) (auto simp: escape_byte_def)

lemma unquote_escape_u:
  assumes "byte b < 0x80"
    and e: "escape_byte b =
      [CHR 0x5C, CHR ''u'', CHR ''0'', CHR ''0'', hex (byte b div 16), hex (byte b mod 16)]"
  shows "unquote_body (escape_byte b @ r) = prepend [b] (unquote_body r)"
proof -
  from assms(1) have n: "byte b < 256" by simp
  have "unquote_body (CHR 0x5C # CHR ''u'' # CHR ''0'' # CHR ''0'' # hex (byte b div 16) # hex (byte b mod 16) # r) =
      prepend (utf8_encode (byte b))
        (unquote_body (drop 4 (CHR ''0'' # CHR ''0'' # hex (byte b div 16) # hex (byte b mod 16) # r)))"
  proof (rule unquote_u)
    show "getu4 (CHR 0x5C # CHR ''u'' # CHR ''0'' # CHR ''0'' # hex (byte b div 16) # hex (byte b mod 16) # r) =
        Some (byte b)"
      by (rule getu4_00[OF n])
    from assms(1) show "\<not> (0xD800 \<le> byte b \<and> byte b < 0xDC00)" by simp
  qed
  with assms(1) e show ?thesis by (simp add: utf8_encode_def)
qed

lemma unquote_escape_plain:
  assumes "byte b < 0x80" and e: "escape_byte b = [b]"
    and "b \<noteq> CHR 0x22" "b \<noteq> CHR 0x5C" "0x20 \<le> byte b"
  shows "unquote_body (escape_byte b @ r) = prepend [b] (unquote_body r)"
  using assms by (simp add: unquote_plain)

lemma escape_byte_cases:
  "(b = CHR 0x22 \<or> b = CHR 0x5C) \<or>
   (b = CHR 0x08 \<or> b = CHR 0x0C \<or> b = CHR 0x0A \<or> b = CHR 0x0D \<or> b = CHR 0x09) \<or>
   escape_byte b = [CHR 0x5C, CHR ''u'', CHR ''0'', CHR ''0'', hex (byte b div 16), hex (byte b mod 16)] \<or>
   (escape_byte b = [b] \<and> b \<noteq> CHR 0x22 \<and> b \<noteq> CHR 0x5C \<and> 0x20 \<le> byte b)"
  by (simp add: escape_byte_def not_less)

lemma unquote_escape:
  assumes "byte b < 0x80"
  shows "unquote_body (escape_byte b @ r) = prepend [b] (unquote_body r)"
  using escape_byte_cases[of b] assms
    unquote_escape_quote[of b r] unquote_escape_short[of b r]
    unquote_escape_u[of b r] unquote_escape_plain[of b r]
  by blast


lemma prepend_Some [simp]: "prepend p (Some (d, rest)) = Some (p @ d, rest)"
  by (simp add: prepend_def)

lemma utf8_len_2:
  "0xC2 \<le> byte b0 \<Longrightarrow> byte b0 \<le> 0xDF \<Longrightarrow>
   utf8_len (b0 # r) = (case r of b1 # r1 \<Rightarrow> if continuation b1 then 2 else 0 | [] \<Rightarrow> 0)"
  by (simp add: utf8_len_def)

lemma utf8_len_3:
  "0xE0 \<le> byte b0 \<Longrightarrow> byte b0 \<le> 0xEF \<Longrightarrow>
   utf8_len (b0 # r) =
     (case r of
        b1 # b2 # r2 \<Rightarrow>
          if (if byte b0 = 0xE0 then 0xA0 else 0x80) \<le> byte b1 \<and>
             byte b1 \<le> (if byte b0 = 0xED then 0x9F else 0xBF) \<and> continuation b2
          then 3 else 0
      | _ \<Rightarrow> 0)"
  by (simp add: utf8_len_def)

lemma utf8_len_4:
  "0xF0 \<le> byte b0 \<Longrightarrow> byte b0 \<le> 0xF4 \<Longrightarrow>
   utf8_len (b0 # r) =
     (case r of
        b1 # b2 # b3 # r3 \<Rightarrow>
          if (if byte b0 = 0xF0 then 0x90 else 0x80) \<le> byte b1 \<and>
             byte b1 \<le> (if byte b0 = 0xF4 then 0x8F else 0xBF) \<and>
             continuation b2 \<and> continuation b3
          then 4 else 0
      | _ \<Rightarrow> 0)"
  by (simp add: utf8_len_def)

lemma utf8_len_other:
  "0x80 \<le> byte b0 \<Longrightarrow> byte b0 < 0xC2 \<or> 0xF4 < byte b0 \<Longrightarrow> utf8_len (b0 # r) = 0"
  by (auto simp: utf8_len_def)

lemma utf8_len_take:
  assumes "utf8_len s = k" "k \<noteq> 0"
  shows "k \<le> length s \<and> utf8_len (take k s @ t) = k"
proof -
  from assms obtain b0 r where s: "s = b0 # r" by (cases s) (auto simp: utf8_len_def)
  consider (one) "byte b0 < 0x80" | (two) "0xC2 \<le> byte b0" "byte b0 \<le> 0xDF"
    | (three) "0xE0 \<le> byte b0" "byte b0 \<le> 0xEF" | (four) "0xF0 \<le> byte b0" "byte b0 \<le> 0xF4"
    | (other) "0x80 \<le> byte b0" "byte b0 < 0xC2 \<or> 0xF4 < byte b0"
    by linarith
  then show ?thesis
  proof cases
    case one
    with assms s have "k = 1" by (simp add: utf8_len_def)
    with one s show ?thesis by (simp add: utf8_len_def)
  next
    case two
    from assms s utf8_len_2[OF two, of r] obtain b1 r1 where "r = b1 # r1" "continuation b1" "k = 2"
      by (auto split: list.splits if_splits)
    with s utf8_len_2[OF two, of "b1 # t"] show ?thesis by simp
  next
    case three
    from assms s utf8_len_3[OF three, of r] obtain b1 b2 r2 where r: "r = b1 # b2 # r2" and k: "k = 3"
      and c: "(if byte b0 = 0xE0 then 0xA0 else 0x80) \<le> byte b1 \<and>
             byte b1 \<le> (if byte b0 = 0xED then 0x9F else 0xBF) \<and> continuation b2"
      by (simp split: list.splits if_splits)
    from c utf8_len_3[OF three, of "b1 # b2 # t"] have "utf8_len (b0 # b1 # b2 # t) = 3" by simp
    with s r k show ?thesis by simp
  next
    case four
    from assms s utf8_len_4[OF four, of r] obtain b1 b2 b3 r3 where r: "r = b1 # b2 # b3 # r3"
      and k: "k = 4"
      and c: "(if byte b0 = 0xF0 then 0x90 else 0x80) \<le> byte b1 \<and>
             byte b1 \<le> (if byte b0 = 0xF4 then 0x8F else 0xBF) \<and>
             continuation b2 \<and> continuation b3"
      by (simp split: list.splits if_splits)
    from c utf8_len_4[OF four, of "b1 # b2 # b3 # t"] have "utf8_len (b0 # b1 # b2 # b3 # t) = 4"
      by simp
    with s r k show ?thesis by simp
  next
    case other
    with assms s utf8_len_other[OF other, of r] show ?thesis by simp
  qed
qed

lemma utf8_len_ascii: "byte b < 0x80 \<Longrightarrow> utf8_len (b # r) = 1"
  by (simp add: utf8_len_def)

lemma take3_shape: "take 3 s = [a, b, c] \<Longrightarrow> s = a # b # c # drop 3 s"
  using append_take_drop_id[of 3 s] by simp

lemma utf8_len_separator:
  assumes "take 3 s = [CHR 0xE2, CHR 0x80, CHR 0xA8] \<or> take 3 s = [CHR 0xE2, CHR 0x80, CHR 0xA9]"
  shows "utf8_len s = 3"
proof -
  have e2: "0xE0 \<le> byte (CHR 0xE2)" "byte (CHR 0xE2) \<le> 0xEF" by (simp_all add: byte_def)
  from assms obtain c where s: "s = CHR 0xE2 # CHR 0x80 # c # drop 3 s"
    and c: "c = CHR 0xA8 \<or> c = CHR 0xA9"
    by (auto dest: take3_shape)
  from c have "continuation c" by (auto simp: continuation_def byte_def)
  then have "utf8_len (CHR 0xE2 # CHR 0x80 # c # drop 3 s) = 3"
    by (simp add: utf8_len_3[OF e2]) (simp add: byte_def)
  with s show ?thesis by simp
qed

lemma unquote_copy:
  assumes "s \<noteq> []" "0x80 \<le> byte (hd s)" "utf8_len s \<noteq> 0"
  shows "unquote_body (take (utf8_len s) s @ t) =
         prepend (take (utf8_len s) s) (unquote_body t)"
proof -
  let ?k = "utf8_len s"
  from utf8_len_take[OF refl assms(3), of t]
  have k: "?k \<le> length s" "utf8_len (take ?k s @ t) = ?k" by simp_all
  from assms obtain c r where s: "s = c # r" by (cases s) auto
  from assms(3) obtain j where j: "?k = Suc j" by (cases ?k) auto
  have cons: "take ?k s @ t = c # (take j r @ t)" using s j by simp
  from assms(2) s have c: "0x80 \<le> byte c" by simp
  have "unquote_body (c # (take j r @ t)) =
      prepend (take (utf8_len (c # (take j r @ t))) (c # (take j r @ t)))
        (unquote_body (drop (utf8_len (c # (take j r @ t))) (c # (take j r @ t))))"
    using c k(2) assms(3) unfolding cons by (intro unquote_multi) simp_all
  then show ?thesis using k unfolding cons[symmetric] by simp
qed

lemma valid_utf8_Nil [simp]: "valid_utf8 []"
  by (subst valid_utf8.simps) simp

lemma valid_utf8_step:
  "valid_utf8 s \<Longrightarrow> s \<noteq> [] \<Longrightarrow> utf8_len s \<noteq> 0 \<and> valid_utf8 (drop (utf8_len s) s)"
  by (subst (asm) valid_utf8.simps) (auto split: if_splits)

lemma quote_body_Nil [simp]: "quote_body [] = []"
  by (subst quote_body.simps) simp

lemma quote_body_ascii: "byte b < 0x80 \<Longrightarrow> quote_body (b # r) = escape_byte b @ quote_body r"
  by (subst quote_body.simps) simp

lemma quote_body_multi:
  "0x80 \<le> byte b \<Longrightarrow> utf8_len (b # r) \<noteq> 0 \<Longrightarrow>
   take 3 (b # r) \<noteq> [CHR 0xE2, CHR 0x80, CHR 0xA8] \<Longrightarrow>
   take 3 (b # r) \<noteq> [CHR 0xE2, CHR 0x80, CHR 0xA9] \<Longrightarrow>
   quote_body (b # r) = take (utf8_len (b # r)) (b # r) @ quote_body (drop (utf8_len (b # r)) (b # r))"
  by (subst quote_body.simps) auto

lemma quote_body_ls:
  "take 3 s = [CHR 0xE2, CHR 0x80, CHR 0xA8] \<Longrightarrow>
   quote_body s = [CHR 0x5C] @ ''u2028'' @ quote_body (drop 3 s)"
proof -
  assume t: "take 3 s = [CHR 0xE2, CHR 0x80, CHR 0xA8]"
  then have k: "utf8_len s = 3" by (simp add: utf8_len_separator)
  from t obtain r where s: "s = CHR 0xE2 # r" by (auto dest: take3_shape)
  have "\<not> byte (CHR 0xE2) < 0x80" by (simp add: byte_def)
  with t k s show ?thesis by (subst quote_body.simps) simp
qed

lemma quote_body_ps:
  "take 3 s = [CHR 0xE2, CHR 0x80, CHR 0xA9] \<Longrightarrow>
   quote_body s = [CHR 0x5C] @ ''u2029'' @ quote_body (drop 3 s)"
proof -
  assume t: "take 3 s = [CHR 0xE2, CHR 0x80, CHR 0xA9]"
  then have k: "utf8_len s = 3" by (simp add: utf8_len_separator)
  from t obtain r where s: "s = CHR 0xE2 # r" by (auto dest: take3_shape)
  have "\<not> byte (CHR 0xE2) < 0x80" by (simp add: byte_def)
  with t k s show ?thesis by (subst quote_body.simps) simp
qed

lemma char_of_eq: "byte c = n \<Longrightarrow> char_of n = c"
  by auto

lemma unquote_ls:
  "unquote_body ([CHR 0x5C] @ ''u2028'' @ r) = prepend [CHR 0xE2, CHR 0x80, CHR 0xA8] (unquote_body r)"
proof -
  have g: "getu4 (CHR 0x5C # CHR ''u'' # ''2028'' @ r) = Some 0x2028"
    by (simp add: getu4_def hex_val_def byte_def)
  have "utf8_encode 0x2028 = [CHR 0xE2, CHR 0x80, CHR 0xA8]"
    by (simp add: utf8_encode_def) (auto intro!: char_of_eq simp: byte_def)
  with unquote_u[OF g] show ?thesis by simp
qed

lemma unquote_ps:
  "unquote_body ([CHR 0x5C] @ ''u2029'' @ r) = prepend [CHR 0xE2, CHR 0x80, CHR 0xA9] (unquote_body r)"
proof -
  have g: "getu4 (CHR 0x5C # CHR ''u'' # ''2029'' @ r) = Some 0x2029"
    by (simp add: getu4_def hex_val_def byte_def)
  have "utf8_encode 0x2029 = [CHR 0xE2, CHR 0x80, CHR 0xA9]"
    by (simp add: utf8_encode_def) (auto intro!: char_of_eq simp: byte_def)
  with unquote_u[OF g] show ?thesis by simp
qed

lemma string_round_trip:
  "valid_utf8 s \<Longrightarrow> unquote_body (quote_body s @ CHR 0x22 # t) = Some (s, t)"
proof (induction s rule: length_induct)
  case (1 s)
  show ?case
  proof (cases s)
    case Nil
    then show ?thesis by simp
  next
    case (Cons b r)
    with valid_utf8_step[OF "1.prems"] have k: "utf8_len s \<noteq> 0"
      and rest: "valid_utf8 (drop (utf8_len s) s)" by simp_all
    from k have shorter: "length (drop (utf8_len s) s) < length s" using Cons by simp
    from "1.IH" shorter rest
    have ih: "unquote_body (quote_body (drop (utf8_len s) s) @ CHR 0x22 # t) =
        Some (drop (utf8_len s) s, t)" by blast
    show ?thesis
    proof (cases "byte b < 0x80")
      case True
      with Cons have one: "utf8_len s = 1" by (simp add: utf8_len_ascii)
      from True Cons have "quote_body s = escape_byte b @ quote_body r"
        by (simp add: quote_body_ascii)
      with ih one Cons unquote_escape[OF True, of "quote_body r @ CHR 0x22 # t"]
      show ?thesis by simp
    next
      case False
      then have high: "0x80 \<le> byte b" by simp
      consider (ls) "take 3 s = [CHR 0xE2, CHR 0x80, CHR 0xA8]"
        | (ps) "take 3 s = [CHR 0xE2, CHR 0x80, CHR 0xA9]"
        | (copy) "take 3 s \<noteq> [CHR 0xE2, CHR 0x80, CHR 0xA8]" "take 3 s \<noteq> [CHR 0xE2, CHR 0x80, CHR 0xA9]"
        by blast
      then show ?thesis
      proof cases
        case ls
        then have three: "utf8_len s = 3" by (simp add: utf8_len_separator)
        from take3_shape[OF ls] have shape: "s = [CHR 0xE2, CHR 0x80, CHR 0xA8] @ drop 3 s" by simp
        from ih three unquote_ls[of "quote_body (drop 3 s) @ CHR 0x22 # t"] quote_body_ls[OF ls]
        have "unquote_body (quote_body s @ CHR 0x22 # t) =
            Some ([CHR 0xE2, CHR 0x80, CHR 0xA8] @ drop 3 s, t)" by simp
        with shape show ?thesis by simp
      next
        case ps
        then have three: "utf8_len s = 3" by (simp add: utf8_len_separator)
        from take3_shape[OF ps] have shape: "s = [CHR 0xE2, CHR 0x80, CHR 0xA9] @ drop 3 s" by simp
        from ih three unquote_ps[of "quote_body (drop 3 s) @ CHR 0x22 # t"] quote_body_ps[OF ps]
        have "unquote_body (quote_body s @ CHR 0x22 # t) =
            Some ([CHR 0xE2, CHR 0x80, CHR 0xA9] @ drop 3 s, t)" by simp
        with shape show ?thesis by simp
      next
        case copy
        from quote_body_multi[OF high, of r] k copy Cons
        have q: "quote_body s = take (utf8_len s) s @ quote_body (drop (utf8_len s) s)" by simp
        have "s \<noteq> []" "0x80 \<le> byte (hd s)" using Cons high by simp_all
        from unquote_copy[OF this k, of "quote_body (drop (utf8_len s) s) @ CHR 0x22 # t"] ih q
        show ?thesis by simp
      qed
    qed
  qed
qed

lemma valid_utf8_ascii: "\<forall>c \<in> set s. byte c < 0x80 \<Longrightarrow> valid_utf8 s"
proof (induction s)
  case Nil
  then show ?case by simp
next
  case (Cons c s)
  then have "utf8_len (c # s) = 1" by (simp add: utf8_len_ascii)
  with Cons show ?case by (subst valid_utf8.simps) simp
qed

lemma skip_ws_space [simp]: "skip_ws (CHR 0x20 # r) = skip_ws r"
  by (simp add: skip_ws_def is_ws_def)

lemma skip_ws_newline [simp]: "skip_ws (CHR 0x0A # r) = skip_ws r"
  by (simp add: skip_ws_def is_ws_def)

lemma skip_ws_Nil [simp]: "skip_ws [] = []"
  by (simp add: skip_ws_def)

lemma skip_ws_token [simp]:
  "c = CHR 0x22 \<or> c = CHR ''{'' \<or> c = CHR ''}'' \<or> c = CHR ''['' \<or> c = CHR '']'' \<or>
   c = CHR '','' \<or> c = CHR '':'' \<Longrightarrow> skip_ws (c # r) = c # r"
  by (auto simp: skip_ws_def is_ws_def)

lemma read_string_space [simp]: "read_string (CHR 0x20 # r) = read_string r"
  by (simp add: read_string_def)

lemma read_string_newline [simp]: "read_string (CHR 0x0A # r) = read_string r"
  by (simp add: read_string_def)

lemma read_string_quote:
  "valid_utf8 s \<Longrightarrow> read_string (json_quote s @ t) = Some (s, t)"
  by (simp add: read_string_def json_quote_def string_round_trip)

lemma json_quote_address: \<open>json_quote ''address'' = ''"address"''\<close>
  by (simp add: json_quote_def quote_body_ascii escape_byte_def byte_def)

lemma json_quote_label: \<open>json_quote ''label'' = ''"label"''\<close>
  by (simp add: json_quote_def quote_body_ascii escape_byte_def byte_def)

lemma read_string_address:
  \<open>read_string (''"address"'' @ t) = Some (''address'', t)\<close>
proof -
  have "valid_utf8 ''address''" by (rule valid_utf8_ascii) (simp add: byte_def)
  from read_string_quote[OF this, of t] show ?thesis by (simp add: json_quote_address)
qed

lemma read_string_label:
  \<open>read_string (''"label"'' @ t) = Some (''label'', t)\<close>
proof -
  have "valid_utf8 ''label''" by (rule valid_utf8_ascii) (simp add: byte_def)
  from read_string_quote[OF this, of t] show ?thesis by (simp add: json_quote_label)
qed

lemmas read_key = read_string_address[simplified] read_string_label[simplified]

lemma read_label_member:
  assumes "valid_utf8 l"
  shows \<open>read_members (Suc n) item (nl @ ''    "label": '' @ json_quote l @ nl @ ''  }'' @ r) =
         Some (item\<lparr>AddressItem.Label := l\<rparr>, r)\<close>
  using assms by (simp add: nl_def read_key read_string_quote)

lemma read_address_then:
  assumes "valid_utf8 a"
  shows \<open>read_members (Suc k) item (nl @ ''    "address": '' @ json_quote a @ '','' @ rest) =
         read_members k (item\<lparr>AddressItem.Address := a\<rparr>) rest\<close>
  using assms by (simp add: nl_def read_key read_string_quote)

lemma read_address_member:
  assumes "valid_utf8 a" "valid_utf8 l"
  shows \<open>read_members (Suc (Suc n)) item
           (nl @ ''    "address": '' @ json_quote a @ '','' @ nl @
            ''    "label": '' @ json_quote l @ nl @ ''  }'' @ r) =
         Some (item\<lparr>AddressItem.Address := a, AddressItem.Label := l\<rparr>, r)\<close>
  unfolding read_address_then[OF assms(1)] read_label_member[OF assms(2)] by simp

lemma read_object_item:
  assumes "valid_utf8 (AddressItem.Address x)" "valid_utf8 (AddressItem.Label x)"
  shows "read_object (item_text x @ r) = Some (x, r)"
proof -
  let ?body = \<open>nl @ ''    "address": '' @ json_quote (AddressItem.Address x) @ '','' @ nl @
            ''    "label": '' @ json_quote (AddressItem.Label x) @ nl @ ''  }'' @ r\<close>
  have shape: "item_text x @ r = ''  {'' @ ?body" by (simp add: item_text_def)
  have len: "\<exists>n. length ?body = Suc (Suc n)"
    by (simp add: nl_def)
  then obtain n where n: "length ?body = Suc (Suc n)" ..
  have first: \<open>skip_ws ?body = CHR 0x22 # ''address": '' @ json_quote (AddressItem.Address x) @ '','' @ nl @
            ''    "label": '' @ json_quote (AddressItem.Label x) @ nl @ ''  }'' @ r\<close>
    by (simp add: nl_def)
  have "read_object (''  {'' @ ?body) =
      read_members (length ?body) \<lparr>AddressItem.Address = [], AddressItem.Label = []\<rparr> ?body"
    unfolding read_object_def using first by simp
  also have "\<dots> = Some (\<lparr>AddressItem.Address = [], AddressItem.Label = []\<rparr>
      \<lparr>AddressItem.Address := AddressItem.Address x, AddressItem.Label := AddressItem.Label x\<rparr>, r)"
    unfolding n by (rule read_address_member[OF assms])
  finally show ?thesis unfolding shape by simp
qed

lemma read_object_newline [simp]: "read_object (CHR 0x0A # s) = read_object s"
  by (simp add: read_object_def)

lemma read_elements_newline: "read_elements n (CHR 0x0A # s) = read_elements n s"
  by (cases n) simp_all

lemma read_elements_items:
  assumes "xs \<noteq> []"
    and "\<forall>x \<in> set xs. valid_utf8 (AddressItem.Address x) \<and> valid_utf8 (AddressItem.Label x)"
    and "length xs \<le> n"
  shows "read_elements n (Join (map item_text xs) ('','' @ nl) @ nl @ '']'' @ r) = Some (xs, r)"
  using assms
proof (induction xs arbitrary: n)
  case Nil
  then show ?case by simp
next
  case (Cons x xs)
  from Cons.prems obtain m where n: "n = Suc m" and m: "length xs \<le> m" by (cases n) auto
  from Cons.prems have vx: "valid_utf8 (AddressItem.Address x)" "valid_utf8 (AddressItem.Label x)"
    by simp_all
  show ?case
  proof (cases xs)
    case Nil
    have "read_elements (Suc m) (item_text x @ (nl @ '']'' @ r)) = Some ([x], r)"
      by (simp add: read_object_item[OF vx] nl_def)
    with Nil n show ?thesis by simp
  next
    case (Cons y ys)
    with Cons.IH[of m] Cons.prems m
    have ih: "read_elements m (Join (map item_text xs) ('','' @ nl) @ nl @ '']'' @ r) = Some (xs, r)"
      by simp
    have "read_elements (Suc m)
        (item_text x @ ('','' @ nl @ Join (map item_text xs) ('','' @ nl) @ nl @ '']'' @ r)) =
        Some (x # xs, r)"
      using ih by (simp add: read_object_item[OF vx] nl_def read_elements_newline)
    with Cons n show ?thesis by simp
  qed
qed

lemma item_text_nonempty: "item_text x \<noteq> []"
  by (simp add: item_text_def)

lemma Join_length: "\<forall>x \<in> set ts. x \<noteq> [] \<Longrightarrow> length ts \<le> length (Join ts sep)"
proof (induction ts sep rule: Join.induct)
  case (1 sep)
  then show ?case by simp
next
  case (2 x sep)
  then show ?case by (cases x) simp_all
next
  case (3 x y ys sep)
  then have "1 \<le> length x" "length (y # ys) \<le> length (Join (y # ys) sep)"
    by (cases x, simp_all)
  then show ?case by simp
qed

lemma json_round_trip:
  assumes "\<forall>x \<in> set xs. valid_utf8 (AddressItem.Address x) \<and> valid_utf8 (AddressItem.Label x)"
  shows "json_Unmarshal (json_MarshalIndent xs) = Some xs"
proof (cases xs)
  case Nil
  then show ?thesis by (simp add: json_MarshalIndent_def json_Unmarshal_def skip_ws_def is_ws_def)
next
  case (Cons y ys)
  let ?body = "nl @ Join (map item_text xs) ('','' @ nl) @ nl @ '']''"
  have shape: "json_MarshalIndent xs = CHR ''['' # ?body" using Cons by (simp add: json_MarshalIndent_def)
  have "length xs \<le> length (Join (map item_text xs) ('','' @ nl))"
    using Join_length[of "map item_text xs" "'','' @ nl"] by (simp add: item_text_nonempty)
  then have fuel: "length xs \<le> length ?body" by simp
  from Cons have ne: "xs \<noteq> []" by simp
  from read_elements_items[OF ne assms fuel, of "[]"]
  have els: "read_elements (length ?body) ?body = Some (xs, [])"
    by (simp add: nl_def read_elements_newline)
  have "\<exists>t. skip_ws ?body = CHR ''{'' # t"
    using Cons by (cases ys) (simp_all add: nl_def item_text_def)
  then obtain t where t: "skip_ws ?body = CHR ''{'' # t" ..
  show ?thesis
    unfolding shape json_Unmarshal_def using els t by simp
qed

lemma quote_body_invalid:
  "0x80 \<le> byte b \<Longrightarrow> utf8_len (b # r) = 0 \<Longrightarrow>
   quote_body (b # r) = [CHR 0x5C] @ ''ufffd'' @ quote_body r"
  by (subst quote_body.simps) simp

lemma marshal_invalid_byte: "json_MarshalIndent [\<lparr>AddressItem.Address = ''A1'', AddressItem.Label = [CHR 0xFF]\<rparr>] =
     ''['' @ nl @ ''  {'' @ nl @ ''    '' @ [CHR 0x22] @ ''address'' @ [CHR 0x22] @ '': '' @ [CHR 0x22] @ ''A1'' @ [CHR 0x22] @ '','' @ nl @
     ''    '' @ [CHR 0x22] @ ''label'' @ [CHR 0x22] @ '': '' @ [CHR 0x22, CHR 0x5C] @ ''ufffd'' @ [CHR 0x22] @ nl @ ''  }'' @ nl @ '']''"
proof -
  have a: "quote_body ''A1'' = ''A1''"
    by (simp add: quote_body_ascii escape_byte_def byte_def)
  have "utf8_len [CHR 0xFF] = 0" by (simp add: utf8_len_def byte_def)
  then have l: "quote_body [CHR 0xFF] = [CHR 0x5C] @ ''ufffd''"
    by (simp add: quote_body_invalid byte_def)
  show ?thesis
    by (simp add: json_MarshalIndent_def item_text_def json_quote_def a l)
qed

lemma read_member_address:
  \<open>read_string q = Some (a, CHR '','' # rest) \<Longrightarrow>
   read_members (Suc k) item (nl @ ''    "address": '' @ q) =
   read_members k (item\<lparr>AddressItem.Address := a\<rparr>) rest\<close>
  by (simp add: nl_def read_key)

lemma read_member_label:
  \<open>read_string q = Some (l, rest) \<Longrightarrow> skip_ws rest = CHR ''}'' # r \<Longrightarrow>
   read_members (Suc n) item (nl @ ''    "label": '' @ q) =
   Some (item\<lparr>AddressItem.Label := l\<rparr>, r)\<close>
  by (simp add: nl_def read_key)

lemma read_object_members:
  "skip_ws body = CHR 0x22 # t \<Longrightarrow> length body = Suc (Suc n) \<Longrightarrow>
   read_members (Suc (Suc n)) \<lparr>AddressItem.Address = [], AddressItem.Label = []\<rparr> body = res \<Longrightarrow>
   read_object (''  {'' @ body) = res"
  by (simp add: read_object_def)

lemma read_elements_single:
  "read_object s = Some (x, r) \<Longrightarrow> skip_ws r = CHR '']'' # r' \<Longrightarrow>
   read_elements (Suc k) s = Some ([x], r')"
  by simp

lemma json_Unmarshal_elements:
  "skip_ws s1 = CHR ''{'' # t \<Longrightarrow> read_elements (length s1) s1 = Some (xs, r) \<Longrightarrow>
   skip_ws r = [] \<Longrightarrow> json_Unmarshal (CHR ''['' # s1) = Some xs"
  by (simp add: json_Unmarshal_def)

lemma unquote_replacement:
  "unquote_body ([CHR 0x5C] @ ''ufffd'' @ r) = prepend [CHR 0xEF, CHR 0xBF, CHR 0xBD] (unquote_body r)"
proof -
  have g: "getu4 (CHR 0x5C # CHR ''u'' # ''fffd'' @ r) = Some 0xFFFD"
    by (simp add: getu4_def hex_val_def byte_def)
  have "utf8_encode 0xFFFD = [CHR 0xEF, CHR 0xBF, CHR 0xBD]"
    by (simp add: utf8_encode_def) (auto intro!: char_of_eq simp: byte_def)
  with unquote_u[OF g] show ?thesis by simp
qed

lemma unmarshal_invalid_byte: "json_Unmarshal (json_MarshalIndent [\<lparr>AddressItem.Address = ''A1'', AddressItem.Label = [CHR 0xFF]\<rparr>]) =
    Some [\<lparr>AddressItem.Address = ''A1'', AddressItem.Label = [CHR 0xEF, CHR 0xBF, CHR 0xBD]\<rparr>]"
proof -
  let ?tail = "nl @ ''  }'' @ nl @ '']''"
  let ?ql = "[CHR 0x22, CHR 0x5C] @ ''ufffd'' @ [CHR 0x22] @ ?tail"
  let ?qa = \<open>[CHR 0x22] @ ''A1'' @ [CHR 0x22] @ '','' @ nl @ ''    "label": '' @ ?ql\<close>
  let ?body = \<open>nl @ ''    "address": '' @ ?qa\<close>
  have l: "read_string ?ql = Some ([CHR 0xEF, CHR 0xBF, CHR 0xBD], ?tail)"
    using unquote_replacement[of "CHR 0x22 # ?tail"] by (simp add: read_string_def)
  have a: \<open>read_string ?qa = Some (''A1'', CHR '','' # nl @ ''    "label": '' @ ?ql)\<close>
    by (simp add: read_string_def unquote_plain byte_def)
  have "skip_ws ?tail = CHR ''}'' # nl @ '']''" by (simp add: nl_def)
  from read_member_label[OF l this]
  have m: \<open>read_members (Suc n) item (nl @ ''    "label": '' @ ?ql) =
      Some (item\<lparr>AddressItem.Label := [CHR 0xEF, CHR 0xBF, CHR 0xBD]\<rparr>, nl @ '']'')\<close> for n item .
  have ms: "read_members (Suc (Suc n)) \<lparr>AddressItem.Address = [], AddressItem.Label = []\<rparr> ?body =
      Some (\<lparr>AddressItem.Address = ''A1'', AddressItem.Label = [CHR 0xEF, CHR 0xBF, CHR 0xBD]\<rparr>, nl @ '']'')" for n
    unfolding read_member_address[OF a] m by simp
  have "\<exists>n. length ?body = Suc (Suc n)" by (simp add: nl_def)
  then obtain n where n: "length ?body = Suc (Suc n)" ..
  have sb: "skip_ws ?body = CHR 0x22 # tl (skip_ws ?body)" by (simp add: nl_def)
  have ro: "read_object (''  {'' @ ?body) =
      Some (\<lparr>AddressItem.Address = ''A1'', AddressItem.Label = [CHR 0xEF, CHR 0xBF, CHR 0xBD]\<rparr>, nl @ '']'')"
    by (rule read_object_members[OF sb n ms])
  then have ro': "read_object (nl @ ''  {'' @ ?body) =
      Some (\<lparr>AddressItem.Address = ''A1'', AddressItem.Label = [CHR 0xEF, CHR 0xBF, CHR 0xBD]\<rparr>, nl @ '']'')"
    by (simp add: nl_def)
  have "skip_ws (nl @ '']'') = CHR '']'' # []" by (simp add: nl_def)
  note re = read_elements_single[OF ro' this]
  have "\<exists>k. length (nl @ ''  {'' @ ?body) = Suc k" by (simp add: nl_def)
  then obtain k where k: "length (nl @ ''  {'' @ ?body) = Suc k" ..
  have shape: "json_MarshalIndent [\<lparr>AddressItem.Address = ''A1'', AddressItem.Label = [CHR 0xFF]\<rparr>] =
      CHR ''['' # (nl @ ''  {'' @ ?body)"
    unfolding marshal_invalid_byte by simp
  have sk: "skip_ws (nl @ ''  {'' @ ?body) = CHR ''{'' # ?body" by (simp add: nl_def)
  from re[of k] k have "read_elements (length (nl @ ''  {'' @ ?body)) (nl @ ''  {'' @ ?body) =
      Some ([\<lparr>AddressItem.Address = ''A1'', AddressItem.Label = [CHR 0xEF, CHR 0xBF, CHR 0xBD]\<rparr>], [])"
    by simp
  from json_Unmarshal_elements[OF sk this] show ?thesis unfolding shape by simp
qed

lemma json_env_codec:
  "MarshalIndent_items (json_env e) xs = Inr (json_MarshalIndent xs)"
  "\<forall>s ys. json_Unmarshal s = Some ys \<longrightarrow> Unmarshal_items (json_env e) s = Inr ys"
  "io_error (json_env e) = io_error e"
  by (simp_all add: json_env_def)

text \<open>
  Claim C5, as the code has it. Let the strings of the records be well-formed UTF-8.
  When \<open>json.MarshalIndent\<close> of the list has been written to a file named \<open>.json\<close> by
  \<open>ioutil.WriteFile\<close> and the file can be read, \<open>readAddressesFromFile\<close> returns the same
  list of records. The library calls of the environment are taken to answer as
  \<open>json_MarshalIndent\<close> and, where it is defined, \<open>json_Unmarshal\<close>.
\<close>

theorem json_address_list_round_trip:
  assumes enc: "MarshalIndent_items e xs = Inr (json_MarshalIndent xs)"
    and dec: "\<forall>s ys. json_Unmarshal s = Some ys \<longrightarrow> Unmarshal_items e s = Inr ys"
    and utf8: "\<forall>x \<in> set xs. valid_utf8 (AddressItem.Address x) \<and> valid_utf8 (AddressItem.Label x)"
    and json: "Ext filePath = ''.json''"
    and marshal: "MarshalIndent_items e xs = Inr updatedContent"
    and written: "WriteFile e filePath updatedContent w = (None, w1)"
    and readable: "io_error e (tick w1) (OpRead filePath) = None"
  shows "fst (readAddressesFromFile e filePath w1) = Inr xs"
proof -
  from enc marshal have c: "updatedContent = json_MarshalIndent xs" by simp
  from WriteFile_world[OF written] have "fs w1 filePath = Some updatedContent" by simp
  with readable have "ReadFile e filePath w1 = (Inr updatedContent, next_tick w1)"
    by (simp add: ReadFile_def)
  moreover from dec json_round_trip[OF utf8] c have "Unmarshal_items e updatedContent = Inr xs"
    by simp
  ultimately show ?thesis using json by (simp add: readAddressesFromFile_def)
qed

theorem json_address_list_round_trip_witness:
  "valid_utf8 ''GOOD'' \<and> valid_utf8 (''caf'' @ [CHR 0xC3, CHR 0xA9] @ '' <1>'') \<and>
   Ext ''ad_json/list.json'' = ''.json'' \<and>
   MarshalIndent_items (json_env demo_env)
     [\<lparr>AddressItem.Address = ''GOOD'', AddressItem.Label = ''caf'' @ [CHR 0xC3, CHR 0xA9] @ '' <1>''\<rparr>] =
     Inr (json_MarshalIndent
       [\<lparr>AddressItem.Address = ''GOOD'', AddressItem.Label = ''caf'' @ [CHR 0xC3, CHR 0xA9] @ '' <1>''\<rparr>]) \<and>
   fst (WriteFile (json_env demo_env) ''ad_json/list.json''
     (json_MarshalIndent
       [\<lparr>AddressItem.Address = ''GOOD'', AddressItem.Label = ''caf'' @ [CHR 0xC3, CHR 0xA9] @ '' <1>''\<rparr>])
     demo_world) = None \<and>
   fst (readAddressesFromFile (json_env demo_env) ''ad_json/list.json''
     (snd (WriteFile (json_env demo_env) ''ad_json/list.json''
        (json_MarshalIndent
          [\<lparr>AddressItem.Address = ''GOOD'', AddressItem.Label = ''caf'' @ [CHR 0xC3, CHR 0xA9] @ '' <1>''\<rparr>])
        demo_world))) =
     Inr [\<lparr>AddressItem.Address = ''GOOD'', AddressItem.Label = ''caf'' @ [CHR 0xC3, CHR 0xA9] @ '' <1>''\<rparr>]"
proof -
  let ?xs = "[\<lparr>AddressItem.Address = ''GOOD'', AddressItem.Label = ''caf'' @ [CHR 0xC3, CHR 0xA9] @ '' <1>''\<rparr>]"
  let ?E = "json_env demo_env"
  let ?W = "WriteFile ?E ''ad_json/list.json'' (json_MarshalIndent ?xs) demo_world"
  have good: "valid_utf8 ''GOOD''" by (rule valid_utf8_ascii) (simp add: byte_def)
  have tail: "valid_utf8 '' <1>''" by (rule valid_utf8_ascii) (simp add: byte_def)
  have "utf8_len ([CHR 0xC3, CHR 0xA9] @ '' <1>'') = 2"
    by (simp add: utf8_len_def byte_def continuation_def)
  with tail have "valid_utf8 ([CHR 0xC3, CHR 0xA9] @ '' <1>'')"
    by (subst valid_utf8.simps) simp
  then have "valid_utf8 (''f'' @ [CHR 0xC3, CHR 0xA9] @ '' <1>'')"
    by (subst valid_utf8.simps) (simp add: utf8_len_def byte_def)
  then have "valid_utf8 (''af'' @ [CHR 0xC3, CHR 0xA9] @ '' <1>'')"
    by (subst valid_utf8.simps) (simp add: utf8_len_def byte_def)
  then have label: "valid_utf8 (''caf'' @ [CHR 0xC3, CHR 0xA9] @ '' <1>'')"
    by (subst valid_utf8.simps) (simp add: utf8_len_def byte_def)
  from good label
  have utf8: "\<forall>x \<in> set ?xs. valid_utf8 (AddressItem.Address x) \<and> valid_utf8 (AddressItem.Label x)"
    by simp
  have ext: "Ext ''ad_json/list.json'' = ''.json''" by (simp add: Ext_def)
  have io: "io_error ?E t (OpWrite ''ad_json/list.json'' c) = None"
    "io_error ?E t (OpRead ''ad_json/list.json'') = None" for t c
    by (simp_all add: json_env_codec demo_env_def)
  have w: "?W = (None, snd ?W)" by (simp add: WriteFile_def io)
  from json_address_list_round_trip[OF json_env_codec(1) json_env_codec(2) utf8 ext
      json_env_codec(1) w io(2)]
  have "fst (readAddressesFromFile ?E ''ad_json/list.json'' (snd ?W)) = Inr ?xs" .
  moreover from w have "fst ?W = None" by (metis fst_conv)
  ultimately show ?thesis using good label ext json_env_codec(1)[of demo_env ?xs] by blast
qed

text \<open>
  Claim C5 as stated fails for a record whose string is not well-formed UTF-8: the label
  of one byte \<open>0xFF\<close> is written as the escape of U+FFFD and read back as the three bytes
  \<open>EF BF BD\<close> of the replacement character.
\<close>

theorem json_address_list_counterexample:
  "MarshalIndent_items (json_env demo_env)
     [\<lparr>AddressItem.Address = ''A1'', AddressItem.Label = [CHR 0xFF]\<rparr>] =
     Inr (json_MarshalIndent [\<lparr>AddressItem.Address = ''A1'', AddressItem.Label = [CHR 0xFF]\<rparr>]) \<and>
   fst (WriteFile (json_env demo_env) ''ad_json/list.json''
     (json_MarshalIndent [\<lparr>AddressItem.Address = ''A1'', AddressItem.Label = [CHR 0xFF]\<rparr>])
     demo_world) = None \<and>
   fst (readAddressesFromFile (json_env demo_env) ''ad_json/list.json''
     (snd (WriteFile (json_env demo_env) ''ad_json/list.json''
        (json_MarshalIndent [\<lparr>AddressItem.Address = ''A1'', AddressItem.Label = [CHR 0xFF]\<rparr>])
        demo_world))) =
     Inr [\<lparr>AddressItem.Address = ''A1'', AddressItem.Label = [CHR 0xEF, CHR 0xBF, CHR 0xBD]\<rparr>] \<and>
   [\<lparr>AddressItem.Address = ''A1'', AddressItem.Label = [CHR 0xEF, CHR 0xBF, CHR 0xBD]\<rparr>] \<noteq>
   [\<lparr>AddressItem.Address = ''A1'', AddressItem.Label = [CHR 0xFF]\<rparr>]"
proof -
  let ?xs = "[\<lparr>AddressItem.Address = ''A1'', AddressItem.Label = [CHR 0xFF]\<rparr>]"
  let ?E = "json_env demo_env"
  let ?W = "WriteFile ?E ''ad_json/list.json'' (json_MarshalIndent ?xs) demo_world"
  have io: "io_error ?E t (OpWrite ''ad_json/list.json'' c) = None"
    "io_error ?E t (OpRead ''ad_json/list.json'') = None" for t c
    by (simp_all add: json_env_codec demo_env_def)
  have w: "?W = (None, next_tick (demo_world\<lparr>fs := (fs demo_world)(''ad_json/list.json'' \<mapsto> json_MarshalIndent ?xs)\<rparr>))"
    by (simp add: WriteFile_def io)
  have u: "Unmarshal_items ?E (json_MarshalIndent ?xs) =
      Inr [\<lparr>AddressItem.Address = ''A1'', AddressItem.Label = [CHR 0xEF, CHR 0xBF, CHR 0xBD]\<rparr>]"
    using json_env_codec(2)[of demo_env] unmarshal_invalid_byte by blast
  have ext: "Ext ''ad_json/list.json'' = ''.json''" by (simp add: Ext_def)
  have r: "fst (readAddressesFromFile ?E ''ad_json/list.json'' (snd ?W)) =
      Inr [\<lparr>AddressItem.Address = ''A1'', AddressItem.Label = [CHR 0xEF, CHR 0xBF, CHR 0xBD]\<rparr>]"
    unfolding w by (simp add: readAddressesFromFile_def ReadFile_def io next_tick_def u ext)
  from w have "fst ?W = None" by (metis fst_conv)
  with r json_env_codec(1)[of demo_env ?xs] show ?thesis by simp
qed

end
